theory Spec2Isabelle
  imports Main "HOL-Library.Monad_Syntax"
begin

section \<open>Data model of logger.go\<close>

text \<open>
  Bytes are \<^typ>\<open>char\<close> and byte slices are \<^typ>\<open>string\<close>. Go's \<open>int\<close> is modelled by
  \<^typ>\<open>int\<close>: the code only divides, takes remainders and counts indices below 64, so
  nothing overflows; Go's truncating division is written out. A run-time panic (an index
  or a slice bound out of range, the only panics this code can raise) is the value
  \<open>None\<close> of an \<open>option\<close> result.
\<close>

definition nl :: char where
  "nl = CHR 0x0A"

definition go_quo :: "int \<Rightarrow> int \<Rightarrow> int" where
  "go_quo a b = sgn a * sgn b * (\<bar>a\<bar> div \<bar>b\<bar>)"

definition go_rem :: "int \<Rightarrow> int \<Rightarrow> int" where
  "go_rem a b = a - b * go_quo a b"

text \<open>\<open>s[i]\<close> on a string: panics unless \<open>0 \<le> i < len(s)\<close>.\<close>

definition index :: "string \<Rightarrow> int \<Rightarrow> char option" where
  "index s i = (if 0 \<le> i \<and> i < int (length s) then Some (s ! nat i) else None)"

text \<open>
  \<open>type severity int32\<close> with the constants \<open>debugLog .. fatalLog\<close> (iota) and the table
  \<open>severityChar\<close>.
\<close>

type_synonym severity = int

definition debugLog :: severity where "debugLog = 0"
definition infoLog :: severity where "infoLog = 1"
definition warningLog :: severity where "warningLog = 2"
definition errorLog :: severity where "errorLog = 3"
definition fatalLog :: severity where "fatalLog = 4"

definition severityChar :: string where
  "severityChar = ''DIWEF''"

definition digits :: string where
  "digits = ''0123456789''"

text \<open>
  \<open>type buffer struct { bytes.Buffer; tmp [64]byte; next *buffer }\<close>. The embedded
  \<open>bytes.Buffer\<close> is only ever appended to and reset, so it is its contents. \<open>tmp\<close> is
  the array as a function of the index; every access goes through a check of the bound
  64. \<open>next\<close> is the link of the free list, \<open>nil\<close> being \<open>None\<close>; a buffer is held by
  exactly one owner at a time (the pool, or the call that took it out), so the pointer is
  modelled by the buffer it points to.
\<close>

datatype buffer = Buffer (bytes: string) (tmp: "nat \<Rightarrow> char") (next_buffer: "buffer option")

text \<open>
  What the program does to the outside: the calls on the sink \<open>l.w\<close> (\<open>Write\<close>, \<open>Sync\<close>)
  and on \<open>osExit\<close>, in the order they are made. \<open>osExit\<close> is a package variable holding
  \<open>os.Exit\<close> that a test may replace; the model records the call, and what the source
  does after the call only happens under a replacement that returns.
\<close>

datatype call = is_Write: Write string | is_Sync: Sync | is_Exit: Exit int

text \<open>
  \<open>type Logger struct\<close>. The sink \<open>w\<close> and \<open>osExit\<close> are represented by \<open>calls\<close>, the
  history of the calls made on them, oldest first. The mutex has no sequential content.
\<close>

record logger =
  includeDebug :: bool
  freeList :: "buffer option"
  depthDelta :: int
  calls :: "call list"

text \<open>The bytes a sink that appends every write (such as \<open>bytes.Buffer\<close>) has received.\<close>

fun written :: "call list \<Rightarrow> string" where
  "written [] = []"
| "written (Write p # cs) = p @ written cs"
| "written (c # cs) = written cs"

text \<open>
  What a call reads from its surroundings: \<open>timeNow()\<close> (the results of \<open>Date\<close>, \<open>Clock\<close>
  and \<open>Nanosecond\<close>), the package variable \<open>pid\<close>, \<open>runtime.Caller(skip)\<close> as a function
  of \<open>skip\<close>, and the text \<open>runtime.Stack\<close> would produce with unlimited room.
\<close>

record time =
  month :: int
  day :: int
  hour :: int
  minute :: int
  second :: int
  nanosecond :: int

record env =
  timeNow :: time
  pid :: int
  runtime_Caller :: "int \<Rightarrow> string \<times> int \<times> bool"
  runtime_Stack :: string

section \<open>The buffer pool\<close>

text \<open>\<open>new(buffer)\<close>: the zero value.\<close>

definition new_buffer :: buffer where
  "new_buffer = Buffer [] (\<lambda>_. CHR 0x00) None"

text \<open>\<open>func (l *Logger) getBuffer() *buffer\<close>\<close>

definition getBuffer :: "logger \<Rightarrow> buffer \<times> logger" where
  "getBuffer l =
     (case freeList l of
        None \<Rightarrow> (new_buffer, l)
      | Some b \<Rightarrow> (Buffer [] (tmp b) None, l\<lparr>freeList := next_buffer b\<rparr>))"

text \<open>\<open>func (l *Logger) putBuffer(b *buffer)\<close>\<close>

definition putBuffer :: "logger \<Rightarrow> buffer \<Rightarrow> logger" where
  "putBuffer l b =
     (if length (bytes b) \<ge> 256 then l
      else l\<lparr>freeList := Some (Buffer (bytes b) (tmp b) (freeList l))\<rparr>)"

text \<open>\<open>func (l *Logger) bufferCacheLen() int\<close>: the loop along the \<open>next\<close> links.\<close>

fun chain_len :: "buffer \<Rightarrow> nat" where
  "chain_len (Buffer bs t None) = 1"
| "chain_len (Buffer bs t (Some b)) = Suc (chain_len b)"

definition bufferCacheLen :: "logger \<Rightarrow> nat" where
  "bufferCacheLen l = (case freeList l of None \<Rightarrow> 0 | Some b \<Rightarrow> chain_len b)"

text \<open>\<open>buf.Write(p)\<close> and \<open>buf.WriteString(s)\<close> of \<open>bytes.Buffer\<close>: append.\<close>

definition buf_Write :: "buffer \<Rightarrow> string \<Rightarrow> buffer" where
  "buf_Write b p = Buffer (bytes b @ p) (tmp b) (next_buffer b)"

text \<open>\<open>buf.tmp[i] = c\<close> and the slice \<open>buf.tmp[:n]\<close>, with Go's bound checks.\<close>

definition tmp_set :: "buffer \<Rightarrow> int \<Rightarrow> char \<Rightarrow> buffer option" where
  "tmp_set b i c =
     (if 0 \<le> i \<and> i < 64 then Some (Buffer (bytes b) ((tmp b)(nat i := c)) (next_buffer b))
      else None)"

definition tmp_upto :: "buffer \<Rightarrow> int \<Rightarrow> string option" where
  "tmp_upto b n = (if 0 \<le> n \<and> n \<le> 64 then Some (map (tmp b) [0..<nat n]) else None)"

section \<open>The header encoder\<close>

declare Option.bind_cong [fundef_cong]

text \<open>\<open>func (buf *buffer) twoDigits(i, d int)\<close>\<close>

definition twoDigits :: "buffer \<Rightarrow> int \<Rightarrow> int \<Rightarrow> buffer option" where
  "twoDigits buf i d = do {
     c1 \<leftarrow> index digits (go_rem d 10);
     buf1 \<leftarrow> tmp_set buf (i + 1) c1;
     c0 \<leftarrow> index digits (go_rem (go_quo d 10) 10);
     tmp_set buf1 i c0
   }"

text \<open>
  \<open>func (buf *buffer) nDigits(n, i, d int, pad byte)\<close>: its two loops share \<open>j\<close>. The
  first writes digits while \<open>j >= 0 && d > 0\<close>, the second pads what is left.
\<close>

function nDigits_digits :: "buffer \<Rightarrow> int \<Rightarrow> int \<Rightarrow> int \<Rightarrow> (buffer \<times> int) option" where
  "nDigits_digits buf i j d =
     (if j \<ge> 0 \<and> d > 0 then do {
        c \<leftarrow> index digits (go_rem d 10);
        buf1 \<leftarrow> tmp_set buf (i + j) c;
        nDigits_digits buf1 i (j - 1) (go_quo d 10)
      } else Some (buf, j))"
  by pat_completeness auto
termination
  by (relation "measure (\<lambda>(buf, i, j, d). nat (j + 1))") auto

function nDigits_pad :: "buffer \<Rightarrow> int \<Rightarrow> int \<Rightarrow> char \<Rightarrow> buffer option" where
  "nDigits_pad buf i j pad =
     (if j \<ge> 0 then do {
        buf1 \<leftarrow> tmp_set buf (i + j) pad;
        nDigits_pad buf1 i (j - 1) pad
      } else Some buf)"
  by pat_completeness auto
termination
  by (relation "measure (\<lambda>(buf, i, j, pad). nat (j + 1))") auto

definition nDigits :: "buffer \<Rightarrow> int \<Rightarrow> int \<Rightarrow> int \<Rightarrow> char \<Rightarrow> buffer option" where
  "nDigits buf n i d pad = do {
     (buf1, j) \<leftarrow> nDigits_digits buf i (n - 1) d;
     nDigits_pad buf1 i j pad
   }"

text \<open>
  \<open>func (buf *buffer) someDigits(i, d int) int\<close>: the loop prints into the top of \<open>tmp\<close>
  from \<open>j = len(buf.tmp)\<close> downwards and leaves when \<open>d == 0\<close>; then
  \<open>copy(buf.tmp[i:], buf.tmp[j:])\<close> moves the digits down and returns how many bytes it
  copied. \<open>copy\<close> takes the shorter of the two slices and reads the source as it was.
\<close>

function someDigits_loop :: "buffer \<Rightarrow> int \<Rightarrow> int \<Rightarrow> (buffer \<times> int) option" where
  "someDigits_loop buf j d = do {
     c \<leftarrow> index digits (go_rem d 10);
     buf1 \<leftarrow> tmp_set buf (j - 1) c;
     if go_quo d 10 = 0 then Some (buf1, j - 1)
     else someDigits_loop buf1 (j - 1) (go_quo d 10)
   }"
  by pat_completeness auto
termination
  by (relation "measure (\<lambda>(buf, j, d). nat j)") (auto simp: tmp_set_def split: if_splits)

definition tmp_copy :: "buffer \<Rightarrow> int \<Rightarrow> int \<Rightarrow> (buffer \<times> int) option" where
  "tmp_copy b i j =
     (if 0 \<le> i \<and> i \<le> 64 \<and> 0 \<le> j \<and> j \<le> 64 then
        let n = min (64 - i) (64 - j) in
        Some (Buffer (bytes b)
                (\<lambda>x. if nat i \<le> x \<and> x < nat i + nat n then tmp b (x - nat i + nat j)
                     else tmp b x)
                (next_buffer b), n)
      else None)"

definition someDigits :: "buffer \<Rightarrow> int \<Rightarrow> int \<Rightarrow> (buffer \<times> int) option" where
  "someDigits buf i d = do {
     (buf1, j) \<leftarrow> someDigits_loop buf 64 d;
     tmp_copy buf1 i j
   }"

text \<open>
  \<open>func (l *Logger) formatHeader(s severity, file string, line int) *buffer\<close>. The result
  is the header buffer and the logger, whose pool gave the buffer.
\<close>

definition formatHeader ::
  "logger \<Rightarrow> env \<Rightarrow> severity \<Rightarrow> string \<Rightarrow> int \<Rightarrow> (buffer \<times> logger) option" where
  "formatHeader l e s file line =
     (let now = timeNow e;
          line = (if line < 0 then 0 else line);
          s = (if s > fatalLog then infoLog else s);
          (buf, l1) = getBuffer l
      in do {
        c \<leftarrow> index severityChar s;
        buf \<leftarrow> tmp_set buf 0 c;
        buf \<leftarrow> twoDigits buf 1 (month now);
        buf \<leftarrow> twoDigits buf 3 (day now);
        buf \<leftarrow> tmp_set buf 5 CHR '' '';
        buf \<leftarrow> twoDigits buf 6 (hour now);
        buf \<leftarrow> tmp_set buf 8 CHR '':'';
        buf \<leftarrow> twoDigits buf 9 (minute now);
        buf \<leftarrow> tmp_set buf 11 CHR '':'';
        buf \<leftarrow> twoDigits buf 12 (second now);
        buf \<leftarrow> tmp_set buf 14 CHR ''.'';
        buf \<leftarrow> nDigits buf 6 15 (go_quo (nanosecond now) 1000) CHR ''0'';
        buf \<leftarrow> tmp_set buf 21 CHR '' '';
        buf \<leftarrow> nDigits buf 7 22 (pid e) CHR '' '';
        buf \<leftarrow> tmp_set buf 29 CHR '' '';
        p \<leftarrow> tmp_upto buf 30;
        buf \<leftarrow> Some (buf_Write buf p);
        buf \<leftarrow> Some (buf_Write buf file);
        buf \<leftarrow> tmp_set buf 0 CHR '':'';
        (buf, n) \<leftarrow> someDigits buf 1 line;
        buf \<leftarrow> tmp_set buf (n + 1) CHR '']'';
        buf \<leftarrow> tmp_set buf (n + 2) CHR '' '';
        q \<leftarrow> tmp_upto buf (n + 3);
        Some (buf_Write buf q, l1)
      })"

text \<open>
  \<open>strings.LastIndex(file, "/")\<close> for a separator of one byte: the index of its last
  occurrence, or \<open>-1\<close>.
\<close>

definition LastIndex :: "string \<Rightarrow> char \<Rightarrow> int" where
  "LastIndex s c =
     (if c \<in> set s then int (length s) - 1 - int (length (takeWhile (\<lambda>x. x \<noteq> c) (rev s)))
      else - 1)"

text \<open>\<open>func (l *Logger) header(s severity, depth int) (*buffer, string, int)\<close>\<close>

definition header ::
  "logger \<Rightarrow> env \<Rightarrow> severity \<Rightarrow> int \<Rightarrow> (buffer \<times> string \<times> int \<times> logger) option" where
  "header l e s depth =
     (let (file, line, ok) = runtime_Caller e (3 + depth + depthDelta l);
          (file, line) =
            (if \<not> ok then (''???'', 1)
             else let slash = LastIndex file CHR ''/''
                  in if slash \<ge> 0 then (drop (nat (slash + 1)) file, line) else (file, line))
      in do {
        (buf, l1) \<leftarrow> formatHeader l e s file line;
        Some (buf, file, line, l1)
      })"

section \<open>The line emitter and the fatal path\<close>

text \<open>
  \<open>bytes.Split(s, []byte("\n"))\<close>: the subslices between the separators, found as the
  library does by searching for the next separator; an input without separator is the
  only element of the result.
\<close>

function bytes_Split :: "string \<Rightarrow> string list" where
  "bytes_Split s =
     (case dropWhile (\<lambda>c. c \<noteq> nl) s of
        [] \<Rightarrow> [s]
      | c # rest \<Rightarrow> takeWhile (\<lambda>c. c \<noteq> nl) s # bytes_Split rest)"
  by pat_completeness auto
termination
proof (relation "measure length")
  fix s :: string and c rest
  assume "dropWhile (\<lambda>c. c \<noteq> nl) s = c # rest"
  then have "length (c # rest) \<le> length s"
    by (metis length_dropWhile_le)
  then show "(rest, s) \<in> measure length" by simp
qed simp

text \<open>\<open>l.w.Write(p)\<close>, \<open>l.w.Sync()\<close> and \<open>osExit(code)\<close>; their results are ignored.\<close>

definition w_Write :: "logger \<Rightarrow> string \<Rightarrow> logger" where
  "w_Write l p = l\<lparr>calls := calls l @ [Write p]\<rparr>"

definition w_Sync :: "logger \<Rightarrow> logger" where
  "w_Sync l = l\<lparr>calls := calls l @ [Sync]\<rparr>"

definition osExit :: "logger \<Rightarrow> int \<Rightarrow> logger" where
  "osExit l code = l\<lparr>calls := calls l @ [Exit code]\<rparr>"

text \<open>
  \<open>func (l *Logger) emitAsOneOrMoreLogLinesImpl(buf, header *buffer)\<close>: the loop over the
  lines, then the function.
\<close>

fun emit_lines :: "logger \<Rightarrow> string list \<Rightarrow> buffer \<Rightarrow> logger" where
  "emit_lines l [] hdr = l"
| "emit_lines l (pline # lines) hdr =
     (if length pline = 0 then emit_lines l lines hdr
      else
        let (buf, l1) = getBuffer l;
            buf = buf_Write buf (bytes hdr);
            buf = buf_Write buf pline;
            buf = buf_Write buf [nl];
            l2 = w_Write l1 (bytes buf);
            l3 = putBuffer l2 buf
        in emit_lines l3 lines hdr)"

definition emitAsOneOrMoreLogLinesImpl :: "logger \<Rightarrow> buffer \<Rightarrow> buffer \<Rightarrow> logger" where
  "emitAsOneOrMoreLogLinesImpl l buf hdr = emit_lines l (bytes_Split (bytes buf)) hdr"

text \<open>
  \<open>func stacks(all bool) []byte\<close>. \<open>runtime.Stack(trace, all)\<close> fills \<open>trace\<close> with as much
  of the full text as fits and returns that many bytes; the loop has \<open>k\<close> rounds left.
\<close>

fun stacks_loop :: "nat \<Rightarrow> nat \<Rightarrow> string \<Rightarrow> string \<Rightarrow> string" where
  "stacks_loop 0 n full trace = trace"
| "stacks_loop (Suc k) n full trace =
     (let nbytes = min n (length full)
      in if nbytes < n then take nbytes full
         else stacks_loop k (n * 2) full (take n full))"

definition stacks :: "bool \<Rightarrow> string \<Rightarrow> string" where
  "stacks all full = stacks_loop 5 (if all then 100000 else 10000) full []"

text \<open>\<open>func (l *Logger) emitAsOneOrMoreLogLines(s severity, buf, header *buffer)\<close>\<close>

definition emitAsOneOrMoreLogLines ::
  "logger \<Rightarrow> env \<Rightarrow> severity \<Rightarrow> buffer \<Rightarrow> buffer \<Rightarrow> logger" where
  "emitAsOneOrMoreLogLines l e s buf hdr =
     (let l1 = emitAsOneOrMoreLogLinesImpl l buf hdr
      in if s = fatalLog then
           let trace = stacks True (runtime_Stack e);
               (buf, l2) = getBuffer l1;
               buf = buf_Write buf trace;
               l3 = emitAsOneOrMoreLogLinesImpl l2 buf hdr;
               l4 = w_Sync l3
           in osExit l4 255
         else l1)"

section \<open>The logger facade\<close>

text \<open>
  \<open>printDepth\<close> and \<open>printf\<close>; \<open>hdr\<close> is the source's variable \<open>header\<close>. \<open>fmt.Fprint(buf, args...)\<close> and
  \<open>fmt.Fprintf(buf, format, args...)\<close> write the formatted text to \<open>buf\<close>; the model takes
  that text, \<open>msg\<close>, as the argument.
\<close>

definition printDepth :: "logger \<Rightarrow> env \<Rightarrow> severity \<Rightarrow> int \<Rightarrow> string \<Rightarrow> logger option" where
  "printDepth l e s depth msg = do {
     (hdr, file, line, l1) \<leftarrow> header l e s depth;
     let (buf, l2) = getBuffer l1;
         buf = buf_Write buf msg;
         l3 = emitAsOneOrMoreLogLines l2 e s buf hdr
     in Some (putBuffer l3 buf)
   }"

definition print :: "logger \<Rightarrow> env \<Rightarrow> severity \<Rightarrow> string \<Rightarrow> logger option" where
  "print l e s msg = printDepth l e s 1 msg"

definition printf :: "logger \<Rightarrow> env \<Rightarrow> severity \<Rightarrow> string \<Rightarrow> logger option" where
  "printf l e s msg = do {
     (hdr, file, line, l1) \<leftarrow> header l e s 0;
     let (buf, l2) = getBuffer l1;
         buf = buf_Write buf msg;
         l3 = emitAsOneOrMoreLogLines l2 e s buf hdr
     in Some (putBuffer l3 buf)
   }"

text \<open>\<open>New\<close> and \<open>NewFromOptions\<close>: a logger that has made no call yet.\<close>

record Options =
  IncludeDebug :: bool
  DepthDelta :: int

definition New :: logger where
  "New = \<lparr>includeDebug = False, freeList = None, depthDelta = 0, calls = []\<rparr>"

definition NewFromOptions :: "Options \<Rightarrow> logger" where
  "NewFromOptions opt =
     \<lparr>includeDebug = IncludeDebug opt, freeList = None, depthDelta = DepthDelta opt, calls = []\<rparr>"

text \<open>The entry points.\<close>

definition Debug :: "logger \<Rightarrow> env \<Rightarrow> string \<Rightarrow> logger option" where
  "Debug l e msg = (if includeDebug l then print l e debugLog msg else Some l)"

definition Debugf :: "logger \<Rightarrow> env \<Rightarrow> string \<Rightarrow> logger option" where
  "Debugf l e msg = (if includeDebug l then printf l e debugLog msg else Some l)"

definition Info :: "logger \<Rightarrow> env \<Rightarrow> string \<Rightarrow> logger option" where
  "Info l e msg = print l e infoLog msg"

definition Infof :: "logger \<Rightarrow> env \<Rightarrow> string \<Rightarrow> logger option" where
  "Infof l e msg = printf l e infoLog msg"

definition Warning :: "logger \<Rightarrow> env \<Rightarrow> string \<Rightarrow> logger option" where
  "Warning l e msg = print l e warningLog msg"

definition Warningf :: "logger \<Rightarrow> env \<Rightarrow> string \<Rightarrow> logger option" where
  "Warningf l e msg = printf l e warningLog msg"

definition Error :: "logger \<Rightarrow> env \<Rightarrow> string \<Rightarrow> logger option" where
  "Error l e msg = print l e errorLog msg"

definition Errorf :: "logger \<Rightarrow> env \<Rightarrow> string \<Rightarrow> logger option" where
  "Errorf l e msg = printf l e errorLog msg"

definition Fatal :: "logger \<Rightarrow> env \<Rightarrow> string \<Rightarrow> logger option" where
  "Fatal l e msg = print l e fatalLog msg"

definition Fatalf :: "logger \<Rightarrow> env \<Rightarrow> string \<Rightarrow> logger option" where
  "Fatalf l e msg = printf l e fatalLog msg"

text \<open>
  \<open>func (l *Logger) Raw(s string)\<close>: the write comes first, then the read of
  \<open>s[len(s)-1]\<close>, which panics on the empty string.
\<close>

definition Raw :: "logger \<Rightarrow> string \<Rightarrow> logger option" where
  "Raw l s =
     (let l1 = w_Write l s
      in do {
        c \<leftarrow> index s (int (length s) - 1);
        if c \<noteq> nl then Some (w_Write l1 [nl]) else Some l1
      })"

section \<open>Notions used in the statements\<close>

text \<open>
  The decimal numeral of a natural number, without leading zeros, over the digit table of
  the source; padding on the left to a width; and the number of digits where zero counts
  as having none, which is how \<open>nDigits\<close> sees it.
\<close>

fun decimal :: "nat \<Rightarrow> string" where
  "decimal n = (if n < 10 then [digits ! n] else decimal (n div 10) @ [digits ! (n mod 10)])"

declare decimal.simps [simp del]

definition pad_left :: "nat \<Rightarrow> char \<Rightarrow> string \<Rightarrow> string" where
  "pad_left n c s = replicate (n - length s) c @ s"

definition digit_count :: "nat \<Rightarrow> nat" where
  "digit_count d = (if d = 0 then 0 else length (decimal d))"

text \<open>The ranges of \<open>Time.Date\<close>, \<open>Time.Clock\<close> and \<open>Time.Nanosecond\<close>.\<close>

definition valid_time :: "time \<Rightarrow> bool" where
  "valid_time t =
     (1 \<le> month t \<and> month t \<le> 12 \<and> 1 \<le> day t \<and> day t \<le> 31 \<and>
      0 \<le> hour t \<and> hour t \<le> 23 \<and> 0 \<le> minute t \<and> minute t \<le> 59 \<and>
      0 \<le> second t \<and> second t \<le> 59 \<and> 0 \<le> nanosecond t \<and> nanosecond t \<le> 999999999)"

text \<open>
  The byte \<open>nDigits\<close> leaves at the place of weight \<open>10 ^ q\<close>, the field of \<open>n\<close> bytes it
  writes, and the two bytes of \<open>twoDigits\<close>.
\<close>

definition field_char :: "nat \<Rightarrow> char \<Rightarrow> nat \<Rightarrow> char" where
  "field_char d pad q = (if 10 ^ q \<le> d then digits ! ((d div 10 ^ q) mod 10) else pad)"

definition two_chars :: "nat \<Rightarrow> string" where
  "two_chars d = [digits ! (d div 10 mod 10), digits ! (d mod 10)]"

definition digits_field :: "nat \<Rightarrow> nat \<Rightarrow> char \<Rightarrow> string" where
  "digits_field n d pad = map (\<lambda>x. field_char d pad (n - 1 - x)) [0..<n]"

definition code_prefix :: "env \<Rightarrow> severity \<Rightarrow> string" where
  "code_prefix e s =
     [severityChar ! nat s] @
     two_chars (nat (month (timeNow e))) @ two_chars (nat (day (timeNow e))) @ '' '' @
     two_chars (nat (hour (timeNow e))) @ '':'' @ two_chars (nat (minute (timeNow e))) @ '':'' @
     two_chars (nat (second (timeNow e))) @ ''.'' @
     digits_field 6 (nat (nanosecond (timeNow e) div 1000)) CHR ''0'' @ '' '' @
     digits_field 7 (nat (pid e)) CHR '' '' @ '' ''"

text \<open>
  The header as the code renders it, for any pid; the header as the format
  \<open>Lmmdd hh:mm:ss.uuuuuu threadid file:line]\<close> describes it, with the pid as a decimal
  numeral padded with spaces to seven bytes; and the clock and pid of \<open>TestHeader\<close>.
\<close>

definition render_header :: "env \<Rightarrow> severity \<Rightarrow> string \<Rightarrow> int \<Rightarrow> string" where
  "render_header e s file line = code_prefix e s @ file @ '':'' @ decimal (nat line) @ ''] ''"

definition glog_prefix :: "env \<Rightarrow> severity \<Rightarrow> string" where
  "glog_prefix e s =
     [severityChar ! nat s] @
     pad_left 2 CHR ''0'' (decimal (nat (month (timeNow e)))) @
     pad_left 2 CHR ''0'' (decimal (nat (day (timeNow e)))) @ '' '' @
     pad_left 2 CHR ''0'' (decimal (nat (hour (timeNow e)))) @ '':'' @
     pad_left 2 CHR ''0'' (decimal (nat (minute (timeNow e)))) @ '':'' @
     pad_left 2 CHR ''0'' (decimal (nat (second (timeNow e)))) @ ''.'' @
     pad_left 6 CHR ''0'' (decimal (nat (nanosecond (timeNow e) div 1000))) @ '' '' @
     pad_left 7 CHR '' '' (decimal (nat (pid e))) @ '' ''"

definition glog_header :: "env \<Rightarrow> severity \<Rightarrow> string \<Rightarrow> int \<Rightarrow> string" where
  "glog_header e s file line = glog_prefix e s @ file @ '':'' @ decimal (nat line) @ ''] ''"

definition example_time :: time where
  "example_time = \<lparr>month = 1, day = 2, hour = 15, minute = 4, second = 5, nanosecond = 67890000\<rparr>"

definition example_env :: env where
  "example_env = \<lparr>timeNow = example_time, pid = 1234,
     runtime_Caller = (\<lambda>_. (''/src/app/example.go'', 42, True)),
     runtime_Stack = ''goroutine 1 [running]:'' @ [nl] @ ''main.main()'' @ [nl]\<rparr>"

text \<open>
  The sink calls of one message under a header: one write per non-empty segment. The
  inverse of splitting. The file name and line that \<open>header\<close> resolves. An environment
  whose clock is in range and whose line numbers are Go \<open>int\<close>s.
\<close>

definition log_lines :: "string \<Rightarrow> string \<Rightarrow> call list" where
  "log_lines h m = map (\<lambda>seg. Write (h @ seg @ [nl])) (filter (\<lambda>seg. seg \<noteq> []) (bytes_Split m))"

fun join_nl :: "string list \<Rightarrow> string" where
  "join_nl [] = []"
| "join_nl [x] = x"
| "join_nl (x # y # ys) = x @ nl # join_nl (y # ys)"

definition call_site :: "env \<Rightarrow> logger \<Rightarrow> int \<Rightarrow> string \<times> int" where
  "call_site e l depth =
     (let (file, line, ok) = runtime_Caller e (3 + depth + depthDelta l)
      in if \<not> ok then (''???'', 1)
         else let slash = LastIndex file CHR ''/''
              in if slash \<ge> 0 then (drop (nat (slash + 1)) file, line) else (file, line))"

definition valid_env :: "env \<Rightarrow> bool" where
  "valid_env e = (valid_time (timeNow e) \<and> (\<forall>k. fst (snd (runtime_Caller e k)) < 2 ^ 63))"

text \<open>The header of a log call of severity \<open>s\<close> made \<open>depth\<close> frames below its caller.\<close>

definition call_header :: "env \<Rightarrow> logger \<Rightarrow> severity \<Rightarrow> int \<Rightarrow> string" where
  "call_header e l s depth =
     render_header e (if s > fatalLog then infoLog else s)
       (fst (call_site e l depth)) (max 0 (snd (call_site e l depth)))"

text \<open>
  The bytes held by the buffers of the free list, head first, and the length of the free
  list after the line emitter has gone through the segments of a message under a header
  of \<open>h\<close> bytes, from a free list of length \<open>c\<close>.
\<close>

fun chain_bytes :: "buffer \<Rightarrow> string list" where
  "chain_bytes (Buffer bs t None) = [bs]"
| "chain_bytes (Buffer bs t (Some b)) = bs # chain_bytes b"

definition pool_bytes :: "logger \<Rightarrow> string list" where
  "pool_bytes l = (case freeList l of None \<Rightarrow> [] | Some b \<Rightarrow> chain_bytes b)"

fun pool_after_lines :: "nat \<Rightarrow> nat \<Rightarrow> string list \<Rightarrow> nat" where
  "pool_after_lines h c [] = c"
| "pool_after_lines h c (p # ps) =
     (if p = [] then pool_after_lines h c ps
      else pool_after_lines h (if h + length p + 1 < 256 then max 1 c else c - 1) ps)"

text \<open>
  \<open>formatHeader\<close> in two parts, for the proofs: up to \<open>buf.WriteString(file)\<close>, and from
  \<open>buf.tmp[0] = ':'\<close> on.
\<close>

definition header_head :: "buffer \<Rightarrow> env \<Rightarrow> severity \<Rightarrow> string \<Rightarrow> buffer option" where
  "header_head buf e s file =
     (let now = timeNow e in do {
        c \<leftarrow> index severityChar s;
        buf \<leftarrow> tmp_set buf 0 c;
        buf \<leftarrow> twoDigits buf 1 (month now);
        buf \<leftarrow> twoDigits buf 3 (day now);
        buf \<leftarrow> tmp_set buf 5 CHR '' '';
        buf \<leftarrow> twoDigits buf 6 (hour now);
        buf \<leftarrow> tmp_set buf 8 CHR '':'';
        buf \<leftarrow> twoDigits buf 9 (minute now);
        buf \<leftarrow> tmp_set buf 11 CHR '':'';
        buf \<leftarrow> twoDigits buf 12 (second now);
        buf \<leftarrow> tmp_set buf 14 CHR ''.'';
        buf \<leftarrow> nDigits buf 6 15 (go_quo (nanosecond now) 1000) CHR ''0'';
        buf \<leftarrow> tmp_set buf 21 CHR '' '';
        buf \<leftarrow> nDigits buf 7 22 (pid e) CHR '' '';
        buf \<leftarrow> tmp_set buf 29 CHR '' '';
        p \<leftarrow> tmp_upto buf 30;
        buf \<leftarrow> Some (buf_Write buf p);
        Some (buf_Write buf file)
      })"

definition header_tail :: "buffer \<Rightarrow> int \<Rightarrow> buffer option" where
  "header_tail buf line = do {
        buf \<leftarrow> tmp_set buf 0 CHR '':'';
        (buf, n) \<leftarrow> someDigits buf 1 line;
        buf \<leftarrow> tmp_set buf (n + 1) CHR '']'';
        buf \<leftarrow> tmp_set buf (n + 2) CHR '' '';
        q \<leftarrow> tmp_upto buf (n + 3);
        Some (buf_Write buf q)
      }"

section \<open>Properties of the buffer pool\<close>

lemma bufferCacheLen_getBuffer:
  "bufferCacheLen (snd (getBuffer l)) = bufferCacheLen l - 1"
proof (cases "freeList l")
  case None
  then show ?thesis by (simp add: getBuffer_def bufferCacheLen_def)
next
  case (Some b)
  then show ?thesis
    by (cases b; cases "next_buffer b") (auto simp: getBuffer_def bufferCacheLen_def)
qed

lemma bufferCacheLen_putBuffer:
  "bufferCacheLen (putBuffer l b) =
     (if length (bytes b) < 256 then Suc (bufferCacheLen l) else bufferCacheLen l)"
  by (cases "freeList l") (auto simp: putBuffer_def bufferCacheLen_def)

lemma getBuffer_fresh: "bytes (fst (getBuffer l)) = [] \<and> next_buffer (fst (getBuffer l)) = None"
  by (cases "freeList l") (auto simp: getBuffer_def new_buffer_def)

lemma getBuffer_putBuffer:
  "length (bytes b) < 256 \<Longrightarrow> getBuffer (putBuffer l b) = (Buffer [] (tmp b) None, l)"
  by (simp add: getBuffer_def putBuffer_def)

text \<open>
  Claim C5. \<open>getBuffer\<close> on a non-empty free list returns its head buffer reset to empty
  and unlinked, and the head of the list moves to the next link; on an empty free list
  it returns a newly allocated empty buffer and the list stays empty. \<open>putBuffer b\<close> links
  \<open>b\<close> in front of the free list when \<open>b\<close> holds fewer than 256 bytes, and leaves the
  logger, hence the free list, as it was when \<open>b\<close> holds 256 bytes or more.
\<close>

theorem getBuffer_putBuffer_pool:
  "(freeList l = Some h \<longrightarrow>
      getBuffer l = (Buffer [] (tmp h) None, l\<lparr>freeList := next_buffer h\<rparr>))
   \<and> (freeList l = None \<longrightarrow>
      getBuffer l = (new_buffer, l) \<and> bytes new_buffer = [] \<and> next_buffer new_buffer = None)
   \<and> (length (bytes b) < 256 \<longrightarrow>
      putBuffer l b = l\<lparr>freeList := Some (Buffer (bytes b) (tmp b) (freeList l))\<rparr>
      \<and> bufferCacheLen (putBuffer l b) = Suc (bufferCacheLen l))
   \<and> (length (bytes b) \<ge> 256 \<longrightarrow> putBuffer l b = l)"
  using bufferCacheLen_putBuffer [of l b]
  by (auto simp: getBuffer_def putBuffer_def new_buffer_def split: if_splits)

theorem getBuffer_putBuffer_pool_witness:
  "getBuffer (New\<lparr>freeList := Some (Buffer ''ab'' (\<lambda>_. CHR ''x'') (Some new_buffer))\<rparr>)
     = (Buffer [] (\<lambda>_. CHR ''x'') None, New\<lparr>freeList := Some new_buffer\<rparr>)
   \<and> getBuffer New = (new_buffer, New)
   \<and> putBuffer (New\<lparr>freeList := Some new_buffer\<rparr>) (Buffer ''ab'' (\<lambda>_. CHR ''x'') None)
     = New\<lparr>freeList := Some (Buffer ''ab'' (\<lambda>_. CHR ''x'') (Some new_buffer))\<rparr>
   \<and> putBuffer New (Buffer (replicate 256 CHR ''a'') (\<lambda>_. CHR ''x'') None) = New"
proof -
  let ?b = "Buffer ''ab'' (\<lambda>_. CHR ''x'') (Some new_buffer)"
  have 1: "freeList (New\<lparr>freeList := Some ?b\<rparr>) = Some ?b" by simp
  have 2: "freeList New = None" by (simp add: New_def)
  have 3: "length (bytes (Buffer ''ab'' (\<lambda>_. CHR ''x'') None)) < 256" by simp
  have 4: "length (bytes (Buffer (replicate 256 CHR ''a'') (\<lambda>_. CHR ''x'') None)) \<ge> 256" by simp
  show ?thesis
    using getBuffer_putBuffer_pool [of "New\<lparr>freeList := Some ?b\<rparr>" ?b "Buffer ''ab'' (\<lambda>_. CHR ''x'') None"]
      getBuffer_putBuffer_pool [of New ?b "Buffer (replicate 256 CHR ''a'') (\<lambda>_. CHR ''x'') None"]
      getBuffer_putBuffer_pool [of "New\<lparr>freeList := Some new_buffer\<rparr>" ?b "Buffer ''ab'' (\<lambda>_. CHR ''x'') None"]
      1 2 3 4
    by simp
qed

section \<open>Arithmetic of the digit loops\<close>

declare nDigits_digits.simps [simp del] nDigits_pad.simps [simp del]
  someDigits_loop.simps [simp del] bytes_Split.simps [simp del]

lemma go_quo_nonneg: "0 \<le> d \<Longrightarrow> go_quo d 10 = d div 10"
  by (simp add: go_quo_def sgn_if)

lemma go_rem_nonneg: "0 \<le> d \<Longrightarrow> go_rem d 10 = d mod 10"
  by (simp add: go_rem_def go_quo_nonneg minus_mult_div_eq_mod)

lemma go_quo_1000: "0 \<le> d \<Longrightarrow> go_quo d 1000 = d div 1000"
  by (simp add: go_quo_def sgn_if)

lemma index_digits: "0 \<le> k \<Longrightarrow> k < 10 \<Longrightarrow> index digits k = Some (digits ! nat k)"
  by (simp add: index_def digits_def)

lemma decimal_length_pos: "0 < length (decimal n)"
  by (subst decimal.simps) simp

lemma decimal_lt: "n < 10 ^ length (decimal n)"
proof (induction n rule: decimal.induct)
  case (1 n)
  show ?case
  proof (cases "n < 10")
    case True
    then show ?thesis by (subst decimal.simps) simp
  next
    case False
    with 1 have "n div 10 < 10 ^ length (decimal (n div 10))" by simp
    then have "n < 10 * 10 ^ length (decimal (n div 10))" by simp
    with False show ?thesis by (subst decimal.simps) simp
  qed
qed

lemma decimal_ge: "0 < n \<Longrightarrow> 10 ^ (length (decimal n) - 1) \<le> n"
proof (induction n rule: decimal.induct)
  case (1 n)
  show ?case
  proof (cases "n < 10")
    case True
    with 1(2) show ?thesis by (subst decimal.simps) simp
  next
    case False
    with 1 have "10 ^ (length (decimal (n div 10)) - 1) \<le> n div 10" by simp
    then have "10 * 10 ^ (length (decimal (n div 10)) - 1) \<le> n" by simp
    moreover have "0 < length (decimal (n div 10))" by (rule decimal_length_pos)
    ultimately have "10 ^ length (decimal (n div 10)) \<le> n"
      by (metis One_nat_def Suc_pred power_Suc)
    with False show ?thesis by (subst decimal.simps) simp
  qed
qed

lemma decimal_length_le: "0 < m \<Longrightarrow> n < 10 ^ m \<Longrightarrow> length (decimal n) \<le> m"
proof (cases "n = 0")
  case True
  assume "0 < m"
  with True show ?thesis by (subst decimal.simps) simp
next
  case False
  assume "n < 10 ^ m"
  moreover from False have "10 ^ (length (decimal n) - 1) \<le> n" by (intro decimal_ge) simp
  ultimately have "(10::nat) ^ (length (decimal n) - 1) < 10 ^ m" by (rule le_less_trans [rotated])
  then have "length (decimal n) - 1 < m"
    by (rule power_less_imp_less_exp [rotated]) simp
  then show ?thesis by simp
qed

lemma decimal_nth:
  "p < length (decimal n) \<Longrightarrow>
   decimal n ! p = digits ! ((n div 10 ^ (length (decimal n) - 1 - p)) mod 10)"
proof (induction n arbitrary: p rule: decimal.induct)
  case (1 n)
  show ?case
  proof (cases "n < 10")
    case True
    then have d: "decimal n = [digits ! n]" by (subst decimal.simps) simp
    with 1(2) show ?thesis using True by simp
  next
    case False
    then have d: "decimal n = decimal (n div 10) @ [digits ! (n mod 10)]"
      by (subst decimal.simps) simp
    let ?k = "length (decimal (n div 10))"
    from d have len: "length (decimal n) = Suc ?k" by simp
    show ?thesis
    proof (cases "p < ?k")
      case True
      from 1(1) [OF False True]
      have "decimal (n div 10) ! p = digits ! ((n div 10 div 10 ^ (?k - 1 - p)) mod 10)" .
      moreover have "n div 10 div 10 ^ (?k - 1 - p) = n div 10 ^ (Suc ?k - 1 - p)"
      proof -
        have "Suc ?k - 1 - p = Suc (?k - 1 - p)" using True by simp
        then show ?thesis by (simp add: div_mult2_eq)
      qed
      ultimately show ?thesis using True by (simp add: d nth_append)
    next
      case False
      with 1(2) len have "p = ?k" by simp
      then show ?thesis by (simp add: d nth_append)
    qed
  qed
qed

lemma digit_count_less: "(q < digit_count d) = (10 ^ q \<le> d)"
proof (cases "d = 0")
  case True
  then show ?thesis by (simp add: digit_count_def)
next
  case False
  then have pos: "0 < d" by simp
  show ?thesis
  proof
    assume "q < digit_count d"
    then have "q \<le> length (decimal d) - 1" using False by (simp add: digit_count_def)
    then have "(10::nat) ^ q \<le> 10 ^ (length (decimal d) - 1)" by simp
    with decimal_ge [OF pos] show "10 ^ q \<le> d" by (rule order_trans [rotated])
  next
    assume "10 ^ q \<le> d"
    from this decimal_lt [of d] have "(10::nat) ^ q < 10 ^ length (decimal d)"
      by (rule le_less_trans)
    then have "q < length (decimal d)"
      by (rule power_less_imp_less_exp [rotated]) simp
    then show "q < digit_count d" using False by (simp add: digit_count_def)
  qed
qed


lemma tmp_set_ok:
  "0 \<le> i \<Longrightarrow> i < 64 \<Longrightarrow>
   tmp_set b i c = Some (Buffer (bytes b) ((tmp b)(nat i := c)) (next_buffer b))"
  by (simp add: tmp_set_def)

lemma nat_mod_10: "0 \<le> d \<Longrightarrow> nat (d mod 10) = nat d mod 10"
  by (simp add: nat_mod_distrib)

lemma nat_div_10: "0 \<le> d \<Longrightarrow> nat (d div 10) = nat d div 10"
  by (simp add: nat_div_distrib)

lemma index_digits_rem:
  "0 \<le> d \<Longrightarrow> index digits (go_rem d 10) = Some (digits ! (nat d mod 10))"
  by (simp add: go_rem_nonneg index_digits nat_mod_10)

lemma twoDigits_ok:
  assumes "0 \<le> d" "0 \<le> i" "i + 1 < 64"
  shows "twoDigits buf i d =
     Some (Buffer (bytes buf)
       ((tmp buf)(nat (i + 1) := digits ! (nat d mod 10),
                  nat i := digits ! (nat d div 10 mod 10)))
       (next_buffer buf))"
proof -
  from assms(1) have q: "0 \<le> d div 10" by simp
  show ?thesis
    using assms q
    by (simp add: twoDigits_def index_digits_rem go_quo_nonneg tmp_set_ok nat_div_10)
qed

lemma nDigits_digits_ok:
  "0 \<le> i \<Longrightarrow> i + j < 64 \<Longrightarrow> - 1 \<le> j \<Longrightarrow>
   \<exists>j'. - 1 \<le> j' \<and> j' \<le> j \<and>
     nDigits_digits buf i j d =
       Some (Buffer (bytes buf)
         (\<lambda>x. if i + j' < int x \<and> int x \<le> i + j
              then digits ! ((nat d div 10 ^ nat (i + j - int x)) mod 10)
              else tmp buf x)
         (next_buffer buf), j') \<and>
     (\<forall>q. int q < j - j' \<longrightarrow> 10 ^ q \<le> nat d) \<and>
     (0 \<le> j' \<longrightarrow> nat d < 10 ^ nat (j - j'))"
proof (induction buf i j d rule: nDigits_digits.induct)
  case (1 buf i j d)
  show ?case
  proof (cases "j \<ge> 0 \<and> d > 0")
    case False
    then have "nDigits_digits buf i j d = Some (buf, j)"
      by (subst nDigits_digits.simps) auto
    moreover from False have "0 \<le> j \<longrightarrow> nat d < 1" by auto
    moreover have "(\<lambda>x. if i + j < int x \<and> int x \<le> i + j
              then digits ! ((nat d div 10 ^ nat (i + j - int x)) mod 10)
              else tmp buf x) = tmp buf"
    proof
      fix x
      have "\<not> (i + j < int x \<and> int x \<le> i + j)" by linarith
      then show "(if i + j < int x \<and> int x \<le> i + j
              then digits ! ((nat d div 10 ^ nat (i + j - int x)) mod 10)
              else tmp buf x) = tmp buf x" by (rule if_not_P)
    qed
    ultimately show ?thesis
      using 1(4) by (intro exI [of _ j]) simp
  next
    case True
    then have d0: "0 \<le> d" and j0: "0 \<le> j" by simp_all
    let ?c = "digits ! (nat d mod 10)"
    let ?buf1 = "Buffer (bytes buf) ((tmp buf)(nat (i + j) := ?c)) (next_buffer buf)"
    have c: "index digits (go_rem d 10) = Some ?c" using d0 by (rule index_digits_rem)
    have b: "tmp_set buf (i + j) ?c = Some ?buf1"
      using 1(2,3) j0 by (simp add: tmp_set_ok)
    have q: "go_quo d 10 = d div 10" using d0 by (rule go_quo_nonneg)
    have step: "nDigits_digits buf i j d = nDigits_digits ?buf1 i (j - 1) (d div 10)"
      using True by (subst nDigits_digits.simps) (simp add: c b q)
    from 1(1) [OF True c b] 1(2,3) j0
    obtain j' where j': "- 1 \<le> j'" "j' \<le> j - 1"
      and r: "nDigits_digits ?buf1 i (j - 1) (d div 10) =
        Some (Buffer (bytes ?buf1)
          (\<lambda>x. if i + j' < int x \<and> int x \<le> i + (j - 1)
               then digits ! ((nat (d div 10) div 10 ^ nat (i + (j - 1) - int x)) mod 10)
               else tmp ?buf1 x)
          (next_buffer ?buf1), j')"
      and lo: "\<forall>q. int q < j - 1 - j' \<longrightarrow> 10 ^ q \<le> nat (d div 10)"
      and hi: "0 \<le> j' \<longrightarrow> nat (d div 10) < 10 ^ nat (j - 1 - j')"
      unfolding q by auto
    have f: "(\<lambda>x. if i + j' < int x \<and> int x \<le> i + (j - 1)
               then digits ! ((nat (d div 10) div 10 ^ nat (i + (j - 1) - int x)) mod 10)
               else tmp ?buf1 x) =
          (\<lambda>x. if i + j' < int x \<and> int x \<le> i + j
              then digits ! ((nat d div 10 ^ nat (i + j - int x)) mod 10)
              else tmp buf x)"
    proof
      fix x
      show "(if i + j' < int x \<and> int x \<le> i + (j - 1)
               then digits ! ((nat (d div 10) div 10 ^ nat (i + (j - 1) - int x)) mod 10)
               else tmp ?buf1 x) =
            (if i + j' < int x \<and> int x \<le> i + j
              then digits ! ((nat d div 10 ^ nat (i + j - int x)) mod 10)
              else tmp buf x)"
      proof (cases "int x = i + j")
        case True
        then have "x = nat (i + j)" by simp
        with True j' show ?thesis by simp
      next
        case False
        then have ne: "x \<noteq> nat (i + j)" using 1(2) j0 by auto
        show ?thesis
        proof (cases "i + j' < int x \<and> int x \<le> i + (j - 1)")
          case True
          then have "nat (i + j - int x) = Suc (nat (i + (j - 1) - int x))" by arith
          then have "nat (d div 10) div 10 ^ nat (i + (j - 1) - int x)
                   = nat d div 10 ^ nat (i + j - int x)"
            using d0 by (simp add: nat_div_10 div_mult2_eq)
          with True show ?thesis by simp
        next
          case False
          with \<open>int x \<noteq> i + j\<close> ne show ?thesis by auto
        qed
      qed
    qed
    have lo': "\<forall>q. int q < j - j' \<longrightarrow> 10 ^ q \<le> nat d"
    proof (intro allI impI)
      fix q :: nat
      assume a: "int q < j - j'"
      show "10 ^ q \<le> nat d"
      proof (cases q)
        case 0
        from True have "1 \<le> nat d" by arith
        with 0 show ?thesis by simp
      next
        case (Suc q')
        with a have "int q' < j - 1 - j'" by simp
        with lo have "10 ^ q' \<le> nat (d div 10)" by blast
        then have "10 ^ q' \<le> nat d div 10" using d0 by (simp add: nat_div_10)
        then have "10 * 10 ^ q' \<le> nat d" by simp
        with Suc show ?thesis by simp
      qed
    qed
    have hi': "0 \<le> j' \<longrightarrow> nat d < 10 ^ nat (j - j')"
    proof
      assume a: "0 \<le> j'"
      with hi have "nat d div 10 < 10 ^ nat (j - 1 - j')" using d0 by (simp add: nat_div_10)
      then have "nat d < 10 * 10 ^ nat (j - 1 - j')" by simp
      moreover have "nat (j - j') = Suc (nat (j - 1 - j'))" using j' by arith
      ultimately show "nat d < 10 ^ nat (j - j')" by simp
    qed
    from j' have "j' \<le> j" by simp
    with j'(1) step r f lo' hi' show ?thesis
      by (intro exI [of _ j']) simp
  qed
qed


lemma nDigits_pad_ok:
  "0 \<le> i \<Longrightarrow> i + j < 64 \<Longrightarrow> - 1 \<le> j \<Longrightarrow>
   nDigits_pad buf i j pad =
     Some (Buffer (bytes buf)
       (\<lambda>x. if i \<le> int x \<and> int x \<le> i + j then pad else tmp buf x)
       (next_buffer buf))"
proof (induction buf i j pad rule: nDigits_pad.induct)
  case (1 buf i j pad)
  show ?case
  proof (cases "j \<ge> 0")
    case False
    have "(\<lambda>x. if i \<le> int x \<and> int x \<le> i + j then pad else tmp buf x) = tmp buf"
    proof
      fix x
      from False have "\<not> (i \<le> int x \<and> int x \<le> i + j)" by linarith
      then show "(if i \<le> int x \<and> int x \<le> i + j then pad else tmp buf x) = tmp buf x"
        by (rule if_not_P)
    qed
    moreover from False have "nDigits_pad buf i j pad = Some buf"
      by (subst nDigits_pad.simps) simp
    ultimately show ?thesis by simp
  next
    case True
    let ?buf1 = "Buffer (bytes buf) ((tmp buf)(nat (i + j) := pad)) (next_buffer buf)"
    have b: "tmp_set buf (i + j) pad = Some ?buf1"
      using 1(2,3) True by (simp add: tmp_set_ok)
    have step: "nDigits_pad buf i j pad = nDigits_pad ?buf1 i (j - 1) pad"
      using True by (subst nDigits_pad.simps) (simp add: b)
    from 1(1) [OF True b] 1(2,3) True
    have r: "nDigits_pad ?buf1 i (j - 1) pad =
        Some (Buffer (bytes ?buf1)
          (\<lambda>x. if i \<le> int x \<and> int x \<le> i + (j - 1) then pad else tmp ?buf1 x)
          (next_buffer ?buf1))"
      by simp
    have f: "(\<lambda>x. if i \<le> int x \<and> int x \<le> i + (j - 1) then pad else tmp ?buf1 x) =
             (\<lambda>x. if i \<le> int x \<and> int x \<le> i + j then pad else tmp buf x)"
    proof
      fix x
      show "(if i \<le> int x \<and> int x \<le> i + (j - 1) then pad else tmp ?buf1 x) =
            (if i \<le> int x \<and> int x \<le> i + j then pad else tmp buf x)"
      proof (cases "int x = i + j")
        case True
        then have "x = nat (i + j)" by simp
        with True \<open>0 \<le> j\<close> show ?thesis by simp
      next
        case False
        then have "x \<noteq> nat (i + j)" using 1(2) True by auto
        with False show ?thesis by auto
      qed
    qed
    from step r f show ?thesis by simp
  qed
qed

lemma nDigits_ok:
  assumes "0 \<le> n" "0 \<le> i" "i + n \<le> 64"
  shows "nDigits buf n i d pad =
     Some (Buffer (bytes buf)
       (\<lambda>x. if i \<le> int x \<and> int x < i + n
            then field_char (nat d) pad (nat (i + n - 1 - int x))
            else tmp buf x)
       (next_buffer buf))"
proof -
  from assms have a: "0 \<le> i" "i + (n - 1) < 64" "- 1 \<le> n - 1" by simp_all
  from nDigits_digits_ok [OF a, of buf d]
  obtain j' where j': "- 1 \<le> j'" "j' \<le> n - 1"
    and r: "nDigits_digits buf i (n - 1) d =
       Some (Buffer (bytes buf)
         (\<lambda>x. if i + j' < int x \<and> int x \<le> i + (n - 1)
              then digits ! ((nat d div 10 ^ nat (i + (n - 1) - int x)) mod 10)
              else tmp buf x)
         (next_buffer buf), j')"
    and lo: "\<forall>q. int q < n - 1 - j' \<longrightarrow> 10 ^ q \<le> nat d"
    and hi: "0 \<le> j' \<longrightarrow> nat d < 10 ^ nat (n - 1 - j')"
    by blast
  let ?t1 = "\<lambda>x. if i + j' < int x \<and> int x \<le> i + (n - 1)
              then digits ! ((nat d div 10 ^ nat (i + (n - 1) - int x)) mod 10)
              else tmp buf x"
  let ?buf1 = "Buffer (bytes buf) ?t1 (next_buffer buf)"
  from assms j' have b: "0 \<le> i" "i + j' < 64" "- 1 \<le> j'" by simp_all
  have p: "nDigits_pad ?buf1 i j' pad =
     Some (Buffer (bytes ?buf1)
       (\<lambda>x. if i \<le> int x \<and> int x \<le> i + j' then pad else tmp ?buf1 x)
       (next_buffer ?buf1))"
    by (rule nDigits_pad_ok [OF b])
  have f: "(\<lambda>x. if i \<le> int x \<and> int x \<le> i + j' then pad else tmp ?buf1 x) =
       (\<lambda>x. if i \<le> int x \<and> int x < i + n
            then field_char (nat d) pad (nat (i + n - 1 - int x))
            else tmp buf x)"
  proof
    fix x
    show "(if i \<le> int x \<and> int x \<le> i + j' then pad else tmp ?buf1 x) =
       (if i \<le> int x \<and> int x < i + n
            then field_char (nat d) pad (nat (i + n - 1 - int x))
            else tmp buf x)"
    proof (cases "i \<le> int x \<and> int x \<le> i + j'")
      case True
      then have "0 \<le> j'" by linarith
      with hi have h: "nat d < 10 ^ nat (n - 1 - j')" by simp
      from True have "nat (n - 1 - j') \<le> nat (i + n - 1 - int x)" by arith
      then have "(10::nat) ^ nat (n - 1 - j') \<le> 10 ^ nat (i + n - 1 - int x)"
        by (intro power_increasing) simp_all
      with h have "\<not> 10 ^ nat (i + n - 1 - int x) \<le> nat d" by linarith
      then have "field_char (nat d) pad (nat (i + n - 1 - int x)) = pad"
        by (simp add: field_char_def)
      moreover from True j' have "i \<le> int x \<and> int x < i + n" by linarith
      ultimately show ?thesis using True by simp
    next
      case False
      show ?thesis
      proof (cases "i + j' < int x \<and> int x \<le> i + (n - 1)")
        case True
        then have "int (nat (i + n - 1 - int x)) < n - 1 - j'" by arith
        with lo have "10 ^ nat (i + n - 1 - int x) \<le> nat d" by blast
        then have "field_char (nat d) pad (nat (i + n - 1 - int x)) =
            digits ! ((nat d div 10 ^ nat (i + n - 1 - int x)) mod 10)"
          by (simp add: field_char_def)
        moreover from True j' have "i \<le> int x \<and> int x < i + n" by linarith
        moreover have "nat (i + (n - 1) - int x) = nat (i + n - 1 - int x)" by arith
        ultimately show ?thesis using True False by (simp del: diff_diff_eq add_diff_eq)
      next
        case F2: False
        with False have F3: "\<not> (i \<le> int x \<and> int x < i + n)" by linarith
        have "(if i \<le> int x \<and> int x \<le> i + j' then pad else tmp ?buf1 x) = tmp ?buf1 x"
          using False by (rule if_not_P)
        also have "tmp ?buf1 x = ?t1 x" by simp
        also have "?t1 x = tmp buf x" using F2 by (rule if_not_P)
        also have "tmp buf x = (if i \<le> int x \<and> int x < i + n
            then field_char (nat d) pad (nat (i + n - 1 - int x))
            else tmp buf x)" using F3 by (rule if_not_P [symmetric])
        finally show ?thesis .
      qed
    qed
  qed
  show ?thesis
    unfolding nDigits_def r using p f by simp
qed


lemma someDigits_loop_ok:
  "int (length (decimal D)) \<le> j \<Longrightarrow> j \<le> 64 \<Longrightarrow>
   someDigits_loop buf j (int D) =
     Some (Buffer (bytes buf)
       (\<lambda>x. if j - int (length (decimal D)) \<le> int x \<and> int x < j
            then decimal D ! nat (int x - (j - int (length (decimal D))))
            else tmp buf x)
       (next_buffer buf), j - int (length (decimal D)))"
proof (induction D arbitrary: buf j rule: decimal.induct)
  case (1 D)
  let ?c = "digits ! (D mod 10)"
  let ?buf1 = "Buffer (bytes buf) ((tmp buf)(nat (j - 1) := ?c)) (next_buffer buf)"
  have kpos: "0 < length (decimal D)" by (rule decimal_length_pos)
  with 1(2) have j1: "1 \<le> j" by linarith
  have c: "index digits (go_rem (int D) 10) = Some ?c"
    using index_digits_rem [of "int D"] by simp
  have b: "tmp_set buf (j - 1) ?c = Some ?buf1"
    using j1 1(3) by (simp add: tmp_set_ok)
  have q: "go_quo (int D) 10 = int (D div 10)"
    by (simp add: go_quo_nonneg zdiv_int)
  show ?case
  proof (cases "D < 10")
    case True
    then have d: "decimal D = [digits ! D]" by (subst decimal.simps) simp
    have r: "someDigits_loop buf j (int D) = Some (?buf1, j - 1)"
      using True c b q by (subst someDigits_loop.simps) simp
    have f: "(\<lambda>x. if j - 1 \<le> int x \<and> int x < j
            then [digits ! D] ! nat (int x - (j - 1)) else tmp buf x) =
          (tmp buf)(nat (j - 1) := ?c)"
    proof
      fix x
      show "(if j - 1 \<le> int x \<and> int x < j
            then [digits ! D] ! nat (int x - (j - 1)) else tmp buf x) =
          ((tmp buf)(nat (j - 1) := ?c)) x"
      proof (cases "int x = j - 1")
        case True
        then have "x = nat (j - 1)" by simp
        with True \<open>D < 10\<close> show ?thesis by simp
      next
        case False
        then have "x \<noteq> nat (j - 1)" using j1 by auto
        then have "((tmp buf)(nat (j - 1) := ?c)) x = tmp buf x" by simp
        moreover from False have "\<not> (j - 1 \<le> int x \<and> int x < j)" by linarith
        then have "(if j - 1 \<le> int x \<and> int x < j
            then [digits ! D] ! nat (int x - (j - 1)) else tmp buf x) = tmp buf x"
          by (rule if_not_P)
        ultimately show ?thesis by (simp only:)
      qed
    qed
    show ?thesis unfolding r d using f by (simp cong: if_cong)
  next
    case False
    let ?D' = "D div 10"
    let ?k' = "length (decimal ?D')"
    from False have d: "decimal D = decimal ?D' @ [?c]" by (subst decimal.simps) simp
    then have k: "length (decimal D) = Suc ?k'" by simp
    from False have nz: "int ?D' \<noteq> 0" by simp
    have step: "someDigits_loop buf j (int D) = someDigits_loop ?buf1 (j - 1) (int ?D')"
      using nz by (subst someDigits_loop.simps) (simp add: c b q)
    from 1(2) k have a1: "int ?k' \<le> j - 1" by simp
    from 1(3) have a2: "j - 1 \<le> 64" by simp
    note r = 1(1) [OF False a1 a2, of ?buf1]
    have f: "(\<lambda>x. if j - 1 - int ?k' \<le> int x \<and> int x < j - 1
            then decimal ?D' ! nat (int x - (j - 1 - int ?k'))
            else tmp ?buf1 x) =
         (\<lambda>x. if j - int (Suc ?k') \<le> int x \<and> int x < j
            then (decimal ?D' @ [?c]) ! nat (int x - (j - int (Suc ?k')))
            else tmp buf x)"
    proof
      fix x
      show "(if j - 1 - int ?k' \<le> int x \<and> int x < j - 1
            then decimal ?D' ! nat (int x - (j - 1 - int ?k'))
            else tmp ?buf1 x) =
         (if j - int (Suc ?k') \<le> int x \<and> int x < j
            then (decimal ?D' @ [?c]) ! nat (int x - (j - int (Suc ?k')))
            else tmp buf x)"
      proof (cases "int x = j - 1")
        case True
        then have x: "x = nat (j - 1)" by simp
        from True have "nat (int x - (j - int (Suc ?k'))) = ?k'" by simp
        with True x show ?thesis by (simp add: nth_append)
      next
        case ne: False
        then have x: "x \<noteq> nat (j - 1)" using j1 by auto
        show ?thesis
        proof (cases "j - 1 - int ?k' \<le> int x \<and> int x < j - 1")
          case True
          then have "nat (int x - (j - int (Suc ?k'))) < ?k'" by arith
          moreover have "nat (int x - (j - int (Suc ?k'))) = nat (int x - (j - 1 - int ?k'))"
            by arith
          ultimately show ?thesis using True by (simp add: nth_append)
        next
          case False
          with ne have "\<not> (j - int (Suc ?k') \<le> int x \<and> int x < j)" by auto
          with False x show ?thesis by auto
        qed
      qed
    qed
    have "j - 1 - int ?k' = j - int (Suc ?k')" by simp
    with step r f show ?thesis unfolding k d by (simp cong: if_cong)
  qed
qed

lemma someDigits_ok:
  assumes "0 \<le> d" "0 \<le> i" "i + int (length (decimal (nat d))) \<le> 64"
  shows "someDigits buf i d =
     Some (Buffer (bytes buf)
       (\<lambda>x. if nat i \<le> x \<and> x < nat i + length (decimal (nat d))
            then decimal (nat d) ! (x - nat i)
            else if 64 - length (decimal (nat d)) \<le> x \<and> x < 64
            then decimal (nat d) ! (x - (64 - length (decimal (nat d))))
            else tmp buf x)
       (next_buffer buf), int (length (decimal (nat d))))"
proof -
  define D where "D = nat d"
  define k where "k = length (decimal D)"
  define t1 where "t1 = (\<lambda>x. if 64 - int k \<le> int x \<and> int x < 64
            then decimal D ! nat (int x - (64 - int k))
            else tmp buf x)"
  have d: "d = int D" using assms(1) by (simp add: D_def)
  have i: "i + int k \<le> 64" using assms(3) by (simp add: D_def k_def)
  with assms(2) have k: "int k \<le> 64" by simp
  have l: "someDigits_loop buf 64 (int D) =
     Some (Buffer (bytes buf) t1 (next_buffer buf), 64 - int k)"
    unfolding t1_def k_def by (rule someDigits_loop_ok) (use k in \<open>simp_all add: k_def\<close>)
  have m: "min (64 - i) (64 - (64 - int k)) = int k" using i by simp
  from assms(2) i k
  have c: "0 \<le> i \<and> i \<le> 64 \<and> 0 \<le> 64 - int k \<and> 64 - int k \<le> 64" by simp
  have cp: "tmp_copy (Buffer (bytes buf) t1 (next_buffer buf)) i (64 - int k) =
     Some (Buffer (bytes buf)
       (\<lambda>x. if nat i \<le> x \<and> x < nat i + k then t1 (x - nat i + nat (64 - int k)) else t1 x)
       (next_buffer buf), int k)"
    using c m by (simp add: tmp_copy_def Let_def cong: if_cong)
  have t1_in: "t1 y = decimal D ! nat (int y - (64 - int k))"
    if "64 - int k \<le> int y \<and> int y < 64" for y
    unfolding t1_def using that by (rule if_P)
  have t1_out: "t1 y = tmp buf y" if "\<not> (64 - int k \<le> int y \<and> int y < 64)" for y
    unfolding t1_def using that by (rule if_not_P)
  have f: "(\<lambda>x. if nat i \<le> x \<and> x < nat i + k
                then t1 (x - nat i + nat (64 - int k)) else t1 x) =
        (\<lambda>x. if nat i \<le> x \<and> x < nat i + k
            then decimal D ! (x - nat i)
            else if 64 - k \<le> x \<and> x < 64
            then decimal D ! (x - (64 - k))
            else tmp buf x)"
  proof
    fix x
    show "(if nat i \<le> x \<and> x < nat i + k
                then t1 (x - nat i + nat (64 - int k)) else t1 x) =
        (if nat i \<le> x \<and> x < nat i + k
            then decimal D ! (x - nat i)
            else if 64 - k \<le> x \<and> x < 64
            then decimal D ! (x - (64 - k))
            else tmp buf x)"
    proof (cases "nat i \<le> x \<and> x < nat i + k")
      case True
      with k have 1: "64 - int k \<le> int (x - nat i + nat (64 - int k)) \<and>
                     int (x - nat i + nat (64 - int k)) < 64" by arith
      from True k have 2: "nat (int (x - nat i + nat (64 - int k)) - (64 - int k)) = x - nat i"
        by arith
      have "t1 (x - nat i + nat (64 - int k)) = decimal D ! (x - nat i)"
        using t1_in [OF 1] 2 by (simp only:)
      with True show ?thesis by (simp only: if_P)
    next
      case False
      show ?thesis
      proof (cases "64 - k \<le> x \<and> x < 64")
        case True
        with k have 1: "64 - int k \<le> int x \<and> int x < 64" by arith
        from True k have 2: "nat (int x - (64 - int k)) = x - (64 - k)" by arith
        have "t1 x = decimal D ! (x - (64 - k))" using t1_in [OF 1] 2 by (simp only:)
        with False True show ?thesis by (simp only: if_P if_not_P not_False_eq_True)
      next
        case F2: False
        with k have 1: "\<not> (64 - int k \<le> int x \<and> int x < 64)" by arith
        have "t1 x = tmp buf x" by (rule t1_out [OF 1])
        with False F2 show ?thesis by (simp only: if_not_P not_False_eq_True)
      qed
    qed
  qed
  have "someDigits buf i (int D) =
     Some (Buffer (bytes buf)
       (\<lambda>x. if nat i \<le> x \<and> x < nat i + k
            then decimal D ! (x - nat i)
            else if 64 - k \<le> x \<and> x < 64
            then decimal D ! (x - (64 - k))
            else tmp buf x)
       (next_buffer buf), int k)"
    unfolding someDigits_def l using cp f by simp
  then show ?thesis unfolding k_def D_def nat_0_le [OF assms(1)] .
qed

section \<open>The header, byte by byte\<close>

lemma formatHeader_split:
  "formatHeader l e s file line =
     (header_head (fst (getBuffer l)) e (if s > fatalLog then infoLog else s) file
        \<bind> (\<lambda>b. header_tail b (if line < 0 then 0 else line))
        \<bind> (\<lambda>b. Some (b, snd (getBuffer l))))"
  by (cases "getBuffer l")
     (simp add: formatHeader_def header_head_def header_tail_def Let_def split_def)

lemma index_severityChar:
  "0 \<le> s \<Longrightarrow> s \<le> 4 \<Longrightarrow> index severityChar s = Some (severityChar ! nat s)"
  by (simp add: index_def severityChar_def)

lemma upt_30: "[0..<30] = [0,1,2,3,4,5,6,7,8,9,10,11,12,13,14,15,16,17,18,19,20,21,22,23,24,25,26,27,28,29]"
  by code_simp

lemma upt_6: "[0..<6] = [0,1,2,3,4,5]"
  by code_simp

lemma upt_7: "[0..<7] = [0,1,2,3,4,5,6]"
  by code_simp

lemma header_head_ok:
  assumes "valid_time (timeNow e)" "0 \<le> s" "s \<le> 4"
  shows "\<exists>t. header_head buf e s file =
     Some (Buffer (bytes buf @ code_prefix e s @ file) t (next_buffer buf))"
proof -
  from assms(1) have t: "0 \<le> month (timeNow e)" "0 \<le> day (timeNow e)" "0 \<le> hour (timeNow e)"
     "0 \<le> minute (timeNow e)" "0 \<le> second (timeNow e)" "0 \<le> nanosecond (timeNow e)"
    by (simp_all add: valid_time_def)
  show ?thesis
    using assms(2,3) t
    by (simp add: header_head_def Let_def index_severityChar tmp_set_ok twoDigits_ok
        nDigits_ok go_quo_1000 tmp_upto_def buf_Write_def upt_30 upt_6 upt_7
        code_prefix_def two_chars_def digits_field_def)
qed

lemma header_tail_ok:
  assumes "0 \<le> line" "length (decimal (nat line)) \<le> 61"
  shows "\<exists>t. header_tail buf line =
     Some (Buffer (bytes buf @ '':'' @ decimal (nat line) @ ''] '') t (next_buffer buf))"
proof -
  define ds where "ds = decimal (nat line)"
  define k where "k = length ds"
  define b1 where "b1 = Buffer (bytes buf) ((tmp buf)(0 := CHR '':'')) (next_buffer buf)"
  define t2 where "t2 = (\<lambda>x. if nat 1 \<le> x \<and> x < nat 1 + k then ds ! (x - nat 1)
            else if 64 - k \<le> x \<and> x < 64 then ds ! (x - (64 - k)) else tmp b1 x)"
  define t4 where "t4 = t2(Suc k := CHR '']'', Suc (Suc k) := CHR '' '')"
  from assms(2) have k61: "k \<le> 61" by (simp add: k_def ds_def)
  have s1: "tmp_set buf 0 CHR '':'' = Some b1"
    by (simp add: tmp_set_ok b1_def)
  have "1 + int (length (decimal (nat line))) \<le> 64" using assms(2) by simp
  from someDigits_ok [OF assms(1) _ this, of b1]
  have s2: "someDigits b1 1 line = Some (Buffer (bytes buf) t2 (next_buffer buf), int k)"
    by (simp add: t2_def k_def ds_def b1_def cong: if_cong)
  have n1: "nat (int k + 1) = Suc k" and n2: "nat (int k + 2) = Suc (Suc k)"
    and n3: "nat (int k + 3) = k + 3" by simp_all
  have s3: "tmp_set (Buffer (bytes buf) t2 (next_buffer buf)) (int k + 1) CHR '']'' =
      Some (Buffer (bytes buf) (t2(Suc k := CHR '']'')) (next_buffer buf))"
    using k61 by (simp add: tmp_set_ok n1)
  have s4: "tmp_set (Buffer (bytes buf) (t2(Suc k := CHR '']'')) (next_buffer buf)) (int k + 2) CHR '' '' =
      Some (Buffer (bytes buf) t4 (next_buffer buf))"
    using k61 by (simp add: tmp_set_ok n2 t4_def)
  have s5: "tmp_upto (Buffer (bytes buf) t4 (next_buffer buf)) (int k + 3) = Some (map t4 [0..<k + 3])"
    using k61 by (simp add: tmp_upto_def n3)
  have q: "map t4 [0..<k + 3] = '':'' @ ds @ ''] ''"
  proof (rule nth_equalityI)
    show "length (map t4 [0..<k + 3]) = length ('':'' @ ds @ ''] '')" by (simp add: k_def)
  next
    fix x
    assume "x < length (map t4 [0..<k + 3])"
    then have x: "x < k + 3" by simp
    then have m: "map t4 [0..<k + 3] ! x = t4 x" by simp
    consider "x = 0" | "1 \<le> x \<and> x \<le> k" | "x = Suc k" | "x = Suc (Suc k)"
      using x by linarith
    then have "t4 x = ('':'' @ ds @ ''] '') ! x"
    proof cases
      case 1
      with k61 have "t4 x = tmp b1 0" by (simp add: t4_def t2_def)
      with 1 show ?thesis by (simp add: b1_def)
    next
      case 2
      then have "t4 x = ds ! (x - 1)" by (simp add: t4_def t2_def)
      moreover from 2 have "('':'' @ ds @ ''] '') ! x = ds ! (x - 1)"
        by (cases x) (simp_all add: nth_append k_def)
      ultimately show ?thesis by simp
    next
      case 3
      then have "t4 x = CHR '']''" by (simp add: t4_def)
      moreover from 3 have "('':'' @ ds @ ''] '') ! x = CHR '']''"
        by (simp add: nth_append k_def)
      ultimately show ?thesis by simp
    next
      case 4
      then have "t4 x = CHR '' ''" by (simp add: t4_def)
      moreover from 4 have "('':'' @ ds @ ''] '') ! x = CHR '' ''"
        by (simp add: nth_append k_def)
      ultimately show ?thesis by simp
    qed
    with m show "map t4 [0..<k + 3] ! x = ('':'' @ ds @ ''] '') ! x" by simp
  qed
  have "header_tail buf line =
     Some (Buffer (bytes buf @ '':'' @ ds @ ''] '') t4 (next_buffer buf))"
    by (simp add: header_tail_def s1 s2 s3 s4 s5 q buf_Write_def)
  then show ?thesis unfolding ds_def by blast
qed

lemma length_digits_field [simp]: "length (digits_field n d pad) = n"
  by (simp add: digits_field_def)

lemma digit_count_le: "digit_count d \<le> length (decimal d)"
  by (simp add: digit_count_def)

lemma digits_field_eq:
  "digits_field n d pad =
     replicate (n - min n (digit_count d)) pad @
     drop (length (decimal d) - min n (digit_count d)) (decimal d)"
proof -
  define k where "k = length (decimal d)"
  define m where "m = min n (digit_count d)"
  have mk: "m \<le> k" using digit_count_le [of d] by (simp add: m_def k_def)
  have mn: "m \<le> n" by (simp add: m_def)
  have md: "m = n \<or> m = digit_count d" by (simp add: m_def min_def)
  have mc: "m \<le> digit_count d" by (simp add: m_def)
  have "digits_field n d pad = replicate (n - m) pad @ drop (k - m) (decimal d)"
  proof (rule nth_equalityI)
    show "length (digits_field n d pad) = length (replicate (n - m) pad @ drop (k - m) (decimal d))"
      using mk mn by (simp add: k_def)
    fix x
    assume "x < length (digits_field n d pad)"
    then have x: "x < n" by simp
    then have l: "digits_field n d pad ! x = field_char d pad (n - 1 - x)"
      by (simp add: digits_field_def)
    show "digits_field n d pad ! x = (replicate (n - m) pad @ drop (k - m) (decimal d)) ! x"
    proof (cases "x < n - m")
      case True
      with md have "\<not> n - 1 - x < digit_count d" by arith
      then have "\<not> 10 ^ (n - 1 - x) \<le> d" using digit_count_less [of "n - 1 - x" d] by blast
      then have "field_char d pad (n - 1 - x) = pad" by (simp add: field_char_def)
      moreover from True have "(replicate (n - m) pad @ drop (k - m) (decimal d)) ! x = pad"
        by (simp add: nth_append)
      ultimately show ?thesis using l by (simp only:)
    next
      case False
      with x have m0: "0 < m" by simp
      with mc have "0 < digit_count d" by arith
      then have dc: "digit_count d = k" by (simp add: digit_count_def k_def split: if_splits)
      from False have nx: "n \<le> x + m" by simp
      with x have "n - 1 - x < m" by simp
      with mc have q: "n - 1 - x < digit_count d" by simp
      then have "10 ^ (n - 1 - x) \<le> d" using digit_count_less [of "n - 1 - x" d] by blast
      then have f: "field_char d pad (n - 1 - x) = digits ! ((d div 10 ^ (n - 1 - x)) mod 10)"
        by (simp add: field_char_def)
      define p where "p = k - m + (x - (n - m))"
      have pe: "p + n = k + x" unfolding p_def using nx mk mn by simp
      with x have p: "p < k" by simp
      from pe x have e: "k - 1 - p = n - 1 - x" by simp
      have "(replicate (n - m) pad @ drop (k - m) (decimal d)) ! x = decimal d ! p"
        using False mk by (simp add: nth_append p_def k_def)
      also have "\<dots> = digits ! ((d div 10 ^ (k - 1 - p)) mod 10)"
        using p unfolding k_def by (rule decimal_nth)
      also have "\<dots> = digits ! ((d div 10 ^ (n - 1 - x)) mod 10)" by (simp only: e)
      finally show ?thesis using l f by (simp only:)
    qed
  qed
  then show ?thesis by (simp only: m_def k_def)
qed

lemma digits_field_pad_left:
  assumes "0 < d" "d < 10 ^ n"
  shows "digits_field n d pad = pad_left n pad (decimal d)"
proof -
  from assms(1) have n0: "0 < n \<or> n = 0" by auto
  have "0 < n"
  proof (rule ccontr)
    assume "\<not> 0 < n"
    with assms show False by simp
  qed
  with assms(2) have "length (decimal d) \<le> n" by (intro decimal_length_le)
  moreover from assms(1) have "digit_count d = length (decimal d)" by (simp add: digit_count_def)
  ultimately show ?thesis
    by (simp add: digits_field_eq pad_left_def min_def)
qed

lemma digits_0: "digits ! 0 = CHR ''0''"
  by (simp add: digits_def)

lemma decimal_0: "decimal 0 = ''0''"
  by (subst decimal.simps) (simp add: digits_def)

lemma digits_field_zero_pad:
  assumes "0 < n" "d < 10 ^ n"
  shows "digits_field n d CHR ''0'' = pad_left n CHR ''0'' (decimal d)"
proof (cases "d = 0")
  case True
  have "replicate n CHR ''0'' = replicate (n - 1) CHR ''0'' @ ''0''"
    using assms(1) by (cases n) (simp_all add: replicate_append_same)
  with True show ?thesis
    by (simp add: digits_field_eq digit_count_def pad_left_def decimal_0)
next
  case False
  with assms(2) show ?thesis by (intro digits_field_pad_left) simp_all
qed

lemma field_char_zero: "field_char d CHR ''0'' q = digits ! ((d div 10 ^ q) mod 10)"
  by (simp add: field_char_def digits_0)

lemma two_chars_field: "two_chars d = digits_field 2 d CHR ''0''"
proof -
  have "[0..<2] = [0, 1]" by code_simp
  then show ?thesis by (simp add: two_chars_def digits_field_def field_char_zero)
qed

lemma two_chars_pad_left: "d < 100 \<Longrightarrow> two_chars d = pad_left 2 CHR ''0'' (decimal d)"
  by (simp add: two_chars_field digits_field_zero_pad)

lemma length_two_chars [simp]: "length (two_chars d) = 2"
  by (simp add: two_chars_def)

lemma length_code_prefix: "length (code_prefix e s) = 30"
  by (simp add: code_prefix_def)

lemma decimal_2_63: "line < 2 ^ 63 \<Longrightarrow> length (decimal (nat line)) \<le> 19"
proof -
  assume "line < 2 ^ 63"
  then have "nat line < 2 ^ 63" by (cases "0 \<le> line") (simp_all add: nat_less_iff)
  also have "(2::nat) ^ 63 < 10 ^ 19" by simp
  finally show ?thesis by (intro decimal_length_le) simp_all
qed

lemma formatHeader_render:
  assumes "valid_time (timeNow e)" "0 \<le> s" "line < 2 ^ 63"
  shows "\<exists>t. formatHeader l e s file line =
     Some (Buffer (render_header e (if s > fatalLog then infoLog else s) file
                     (if line < 0 then 0 else line)) t None,
           snd (getBuffer l))"
proof -
  let ?s = "if s > fatalLog then infoLog else s"
  let ?line = "if line < 0 then 0 else line"
  have s: "0 \<le> ?s" "?s \<le> 4" using assms(2) by (simp_all add: fatalLog_def infoLog_def)
  have ln: "0 \<le> ?line" by simp
  have "?line < 2 ^ 63" using assms(3) by simp
  then have "length (decimal (nat ?line)) \<le> 19" by (rule decimal_2_63)
  then have k: "length (decimal (nat ?line)) \<le> 61" by simp
  obtain t1 where h: "header_head (fst (getBuffer l)) e ?s file =
      Some (Buffer (bytes (fst (getBuffer l)) @ code_prefix e ?s @ file) t1
              (next_buffer (fst (getBuffer l))))"
    using header_head_ok [OF assms(1) s] by blast
  obtain t2 where t: "header_tail (Buffer (code_prefix e ?s @ file) t1 None) ?line =
      Some (Buffer ((code_prefix e ?s @ file) @ '':'' @ decimal (nat ?line) @ ''] '') t2 None)"
    using header_tail_ok [OF ln k, of "Buffer (code_prefix e ?s @ file) t1 None"] by auto
  have "formatHeader l e s file line =
     Some (Buffer (render_header e ?s file ?line) t2 None, snd (getBuffer l))"
    unfolding formatHeader_split h using t
    by (simp add: getBuffer_fresh render_header_def)
  then show ?thesis by blast
qed

lemma code_prefix_glog:
  assumes "valid_time (timeNow e)" "1 \<le> pid e" "pid e \<le> 9999999"
  shows "code_prefix e s = glog_prefix e s"
proof -
  from assms(1) have "nat (month (timeNow e)) < 100" "nat (day (timeNow e)) < 100"
    "nat (hour (timeNow e)) < 100" "nat (minute (timeNow e)) < 100"
    "nat (second (timeNow e)) < 100"
    unfolding valid_time_def by linarith+
  moreover from assms(1) have "nanosecond (timeNow e) < 1000000 * 1000"
    unfolding valid_time_def by linarith
  then have "nanosecond (timeNow e) div 1000 < 1000000" by arith
  then have "nat (nanosecond (timeNow e) div 1000) < 10 ^ 6" by (simp add: nat_less_iff)
  moreover from assms(2,3) have "0 < nat (pid e)" "nat (pid e) < 10 ^ 7" by simp_all
  ultimately show ?thesis
    by (simp add: code_prefix_def glog_prefix_def two_chars_pad_left
        digits_field_zero_pad digits_field_pad_left)
qed

lemma glog_prefix_cong:
  "timeNow e = timeNow e' \<Longrightarrow> pid e = pid e' \<Longrightarrow> glog_prefix e s = glog_prefix e' s"
  by (simp add: glog_prefix_def)

lemma decimal_small: "n < 10 \<Longrightarrow> decimal n = [digits ! n]"
  by (subst decimal.simps) simp

lemma decimal_rec: "\<not> n < 10 \<Longrightarrow> decimal n = decimal (n div 10) @ [digits ! (n mod 10)]"
  by (subst decimal.simps) simp

lemma replicate_numeral: "replicate (numeral k) x = x # replicate (pred_numeral k) x"
  by (simp add: numeral_eq_Suc)

lemma example_prefix_value: "glog_prefix example_env infoLog = ''I0102 15:04:05.067890    1234 ''"
  by (simp add: glog_prefix_def example_env_def example_time_def infoLog_def severityChar_def
      pad_left_def decimal_small decimal_rec digits_def replicate_numeral)

lemma example_prefix:
  assumes "timeNow e = example_time" "pid e = 1234"
  shows "glog_prefix e infoLog = ''I0102 15:04:05.067890    1234 ''"
proof -
  have "glog_prefix e infoLog = glog_prefix example_env infoLog"
    using assms by (intro glog_prefix_cong) (simp_all add: example_env_def)
  then show ?thesis by (simp only: example_prefix_value)
qed

lemma valid_example_time: "valid_time example_time"
  by (simp add: valid_time_def example_time_def)

lemma getBuffer_New: "getBuffer New = (new_buffer, New)"
  by (simp add: getBuffer_def New_def)

lemma take_drop_code_prefix:
  "take 7 (drop 22 (code_prefix e s @ rest)) = digits_field 7 (nat (pid e)) CHR '' ''"
  by (simp add: code_prefix_def)

lemma nDigits_tmp_field:
  assumes "0 \<le> n" "0 \<le> i"
  shows "map (\<lambda>x. if i \<le> int x \<and> int x < i + n
            then field_char d pad (nat (i + n - 1 - int x))
            else t0 x) [nat i..<nat (i + n)] = digits_field (nat n) d pad"
proof (rule nth_equalityI)
  have len: "nat (i + n) - nat i = nat n" using assms by arith
  then show "length (map (\<lambda>x. if i \<le> int x \<and> int x < i + n
            then field_char d pad (nat (i + n - 1 - int x))
            else t0 x) [nat i..<nat (i + n)]) = length (digits_field (nat n) d pad)"
    by simp
  fix x
  assume "x < length (map (\<lambda>x. if i \<le> int x \<and> int x < i + n
            then field_char d pad (nat (i + n - 1 - int x))
            else t0 x) [nat i..<nat (i + n)])"
  with len have x: "x < nat n" by simp
  then have u: "[nat i..<nat (i + n)] ! x = nat i + x" using len by simp
  from x assms have c: "i \<le> int (nat i + x) \<and> int (nat i + x) < i + n" by arith
  from x assms have q: "nat (i + n - 1 - int (nat i + x)) = nat n - 1 - x" by arith
  from x len have "map (\<lambda>x. if i \<le> int x \<and> int x < i + n
            then field_char d pad (nat (i + n - 1 - int x))
            else t0 x) [nat i..<nat (i + n)] ! x =
        (if i \<le> int (nat i + x) \<and> int (nat i + x) < i + n
            then field_char d pad (nat (i + n - 1 - int (nat i + x)))
            else t0 (nat i + x))"
    by (simp only: nth_map length_upt u)
  also have "\<dots> = field_char d pad (nat n - 1 - x)" using c q by (simp only: if_P)
  also have "\<dots> = digits_field (nat n) d pad ! x" using x by (simp add: digits_field_def)
  finally show "map (\<lambda>x. if i \<le> int x \<and> int x < i + n
            then field_char d pad (nat (i + n - 1 - int x))
            else t0 x) [nat i..<nat (i + n)] ! x = digits_field (nat n) d pad ! x" .
qed

section \<open>Claims about the header\<close>

text \<open>
  Claim C1, amended. For a clock in the ranges of \<open>time.Time\<close>, a severity from DEBUG to
  FATAL, a line number from 0 up to the largest Go \<open>int\<close>, any file name and a pid from 1
  to 9999999, \<open>formatHeader\<close> returns a buffer holding exactly the 30 bytes
  \<open>glog_prefix\<close> (the severity character, month and day in two digits, a space, hour,
  minute and second in two digits separated by colons, a dot, the microseconds in six
  digits, a space, the pid padded with spaces to seven bytes, a space), then the file
  name, a colon, the line number as a decimal numeral without leading zeros, and \<open>] \<close>.
  With the clock 2006-01-02 15:04:05.067890 and the pid 1234 the header of INFO is
  \<open>I0102 15:04:05.067890    1234 file:line] \<close>. The bound on the pid is what the
  amendment adds: see the counterexample below.
\<close>

theorem formatHeader_glog:
  assumes "valid_time (timeNow e)" "debugLog \<le> s" "s \<le> fatalLog"
    "0 \<le> line" "line < 2 ^ 63" "1 \<le> pid e" "pid e \<le> 9999999"
  shows "(\<exists>t. formatHeader l e s file line =
            Some (Buffer (glog_header e s file line) t None, snd (getBuffer l)))
       \<and> length (glog_prefix e s) = 30
       \<and> glog_header e s file line = glog_prefix e s @ file @ '':'' @ decimal (nat line) @ ''] ''
       \<and> (timeNow e = example_time \<and> pid e = 1234 \<and> s = infoLog \<longrightarrow>
            glog_header e s file line =
              ''I0102 15:04:05.067890    1234 '' @ file @ '':'' @ decimal (nat line) @ ''] '')"
proof -
  have s0: "0 \<le> s" using assms(2) by (simp add: debugLog_def)
  from formatHeader_render [OF assms(1) s0 assms(5), of l "file"] assms(3,4)
  obtain t where "formatHeader l e s file line =
      Some (Buffer (render_header e s file line) t None, snd (getBuffer l))"
    by auto
  moreover have p: "code_prefix e s = glog_prefix e s"
    using assms(1,6,7) by (rule code_prefix_glog)
  ultimately have 1: "\<exists>t. formatHeader l e s file line =
            Some (Buffer (glog_header e s file line) t None, snd (getBuffer l))"
    by (auto simp: render_header_def glog_header_def)
  have 2: "length (glog_prefix e s) = 30" using length_code_prefix [of e s] p by simp
  show ?thesis using 1 2 by (simp add: glog_header_def example_prefix)
qed

text \<open>The theorem at the call of \<open>TestHeader\<close>, from \<open>example.go:42\<close>.\<close>

theorem formatHeader_glog_witness:
  "\<exists>t. formatHeader New example_env infoLog ''example.go'' 42 =
     Some (Buffer ''I0102 15:04:05.067890    1234 example.go:42] '' t None, New)"
proof -
  have "valid_time (timeNow example_env)" "debugLog \<le> infoLog" "infoLog \<le> fatalLog"
    "(0::int) \<le> 42" "(42::int) < 2 ^ 63" "1 \<le> pid example_env" "pid example_env \<le> 9999999"
    by (simp_all add: example_env_def valid_example_time debugLog_def infoLog_def fatalLog_def)
  from formatHeader_glog [OF this, of New "''example.go''"]
  have "\<exists>t. formatHeader New example_env infoLog ''example.go'' 42 =
     Some (Buffer (glog_header example_env infoLog ''example.go'' 42) t None, New)"
    unfolding getBuffer_New snd_conv by (rule conjunct1)
  moreover have "glog_header example_env infoLog ''example.go'' 42 =
      ''I0102 15:04:05.067890    1234 example.go:42] ''"
    by (simp add: glog_header_def example_prefix_value decimal_small decimal_rec digits_def)
  ultimately show ?thesis by simp
qed

text \<open>
  Claim C1 as stated fails for a pid outside 1..9999999. With the pid 0 the code writes
  seven spaces where the format has \<open>      0\<close>; with the pid 12345678 the code writes the
  last seven digits where the format has all eight.
\<close>

theorem formatHeader_pid_counterexample:
  "map_option (bytes \<circ> fst) (formatHeader New (example_env\<lparr>pid := 0\<rparr>) infoLog ''example.go'' 42)
     = Some ''I0102 15:04:05.067890         example.go:42] ''
   \<and> glog_header (example_env\<lparr>pid := 0\<rparr>) infoLog ''example.go'' 42
     = ''I0102 15:04:05.067890       0 example.go:42] ''
   \<and> map_option (bytes \<circ> fst)
       (formatHeader New (example_env\<lparr>pid := 12345678\<rparr>) infoLog ''example.go'' 42)
     = Some ''I0102 15:04:05.067890 2345678 example.go:42] ''
   \<and> glog_header (example_env\<lparr>pid := 12345678\<rparr>) infoLog ''example.go'' 42
     = ''I0102 15:04:05.067890 12345678 example.go:42] ''"
proof (intro conjI)
  show "map_option (bytes \<circ> fst) (formatHeader New (example_env\<lparr>pid := 0\<rparr>) infoLog ''example.go'' 42)
     = Some ''I0102 15:04:05.067890         example.go:42] ''"
    by code_simp
  show "map_option (bytes \<circ> fst)
       (formatHeader New (example_env\<lparr>pid := 12345678\<rparr>) infoLog ''example.go'' 42)
     = Some ''I0102 15:04:05.067890 2345678 example.go:42] ''"
    by code_simp
  show "glog_header (example_env\<lparr>pid := 0\<rparr>) infoLog ''example.go'' 42
     = ''I0102 15:04:05.067890       0 example.go:42] ''"
    by (simp add: glog_header_def glog_prefix_def example_env_def example_time_def infoLog_def
        severityChar_def pad_left_def decimal_small decimal_rec digits_def replicate_numeral)
  show "glog_header (example_env\<lparr>pid := 12345678\<rparr>) infoLog ''example.go'' 42
     = ''I0102 15:04:05.067890 12345678 example.go:42] ''"
    by (simp add: glog_header_def glog_prefix_def example_env_def example_time_def infoLog_def
        severityChar_def pad_left_def decimal_small decimal_rec digits_def replicate_numeral)
qed


text \<open>
  Claim C7. \<open>formatHeader\<close> called with a severity above FATAL returns what it returns for
  INFO, a header that starts with \<open>I\<close>; called with a negative line number it returns
  what it returns for the line 0, a header that ends with the file name and \<open>:0] \<close>.
\<close>

theorem formatHeader_clamps:
  assumes "valid_time (timeNow e)" "line < 2 ^ 63"
  shows "(fatalLog < s \<longrightarrow>
            formatHeader l e s file line = formatHeader l e infoLog file line
          \<and> (\<exists>t. formatHeader l e s file line =
                 Some (Buffer (CHR ''I'' # tl (render_header e infoLog file (max 0 line))) t None,
                       snd (getBuffer l))))
       \<and> (line < 0 \<longrightarrow>
            formatHeader l e s file line = formatHeader l e s file 0
          \<and> (0 \<le> s \<longrightarrow>
               (\<exists>t. formatHeader l e s file line =
                  Some (Buffer (code_prefix e (if fatalLog < s then infoLog else s) @ file @ '':0] '')
                          t None, snd (getBuffer l)))))"
proof (intro conjI impI)
  assume s: "fatalLog < s"
  then show "formatHeader l e s file line = formatHeader l e infoLog file line"
    by (simp add: formatHeader_def fatalLog_def infoLog_def)
  from s have s0: "0 \<le> s" by (simp add: fatalLog_def)
  have m: "(if line < 0 then 0 else line) = max 0 line" by simp
  have "render_header e infoLog file (max 0 line) =
      CHR ''I'' # tl (render_header e infoLog file (max 0 line))"
    by (simp add: render_header_def code_prefix_def infoLog_def severityChar_def)
  with formatHeader_render [OF assms(1) s0 assms(2), of l "file"] s m
  show "\<exists>t. formatHeader l e s file line =
      Some (Buffer (CHR ''I'' # tl (render_header e infoLog file (max 0 line))) t None,
            snd (getBuffer l))"
    by simp
next
  assume "line < 0"
  then show "formatHeader l e s file line = formatHeader l e s file 0"
    by (simp add: formatHeader_def)
next
  assume n: "line < 0" and s0: "0 \<le> s"
  from formatHeader_render [OF assms(1) s0 assms(2), of l "file"] n
  show "\<exists>t. formatHeader l e s file line =
      Some (Buffer (code_prefix e (if fatalLog < s then infoLog else s) @ file @ '':0] '')
              t None, snd (getBuffer l))"
    by (simp add: render_header_def decimal_small digits_def)
qed

theorem formatHeader_clamps_witness:
  "formatHeader New example_env 7 ''example.go'' (- 5) =
     formatHeader New example_env infoLog ''example.go'' (- 5)
   \<and> formatHeader New example_env 7 ''example.go'' (- 5) =
     formatHeader New example_env 7 ''example.go'' 0
   \<and> (\<exists>t. formatHeader New example_env 7 ''example.go'' (- 5) =
        Some (Buffer ''I0102 15:04:05.067890    1234 example.go:0] '' t None, New))"
proof -
  have a: "valid_time (timeNow example_env)" "(- 5 :: int) < 2 ^ 63"
    by (simp_all add: example_env_def valid_example_time)
  have b: "fatalLog < 7" "(- 5 :: int) < 0" "(0 :: int) \<le> 7" by (simp_all add: fatalLog_def)
  have p: "code_prefix example_env infoLog = ''I0102 15:04:05.067890    1234 ''"
    using code_prefix_glog [of example_env infoLog] a(1) example_prefix_value
    by (simp add: example_env_def)
  note th = formatHeader_clamps [OF a, of 7 New "''example.go''"]
  from th b(1) have 1: "formatHeader New example_env 7 ''example.go'' (- 5) =
     formatHeader New example_env infoLog ''example.go'' (- 5)" by blast
  from th b(2) have 2: "formatHeader New example_env 7 ''example.go'' (- 5) =
     formatHeader New example_env 7 ''example.go'' 0" by blast
  from th b(2,3) have "\<exists>t. formatHeader New example_env 7 ''example.go'' (- 5) =
      Some (Buffer (code_prefix example_env (if fatalLog < 7 then infoLog else 7)
                      @ ''example.go'' @ '':0] '') t None, snd (getBuffer New))" by blast
  then have 3: "\<exists>t. formatHeader New example_env 7 ''example.go'' (- 5) =
        Some (Buffer ''I0102 15:04:05.067890    1234 example.go:0] '' t None, New)"
    using b(1) by (simp add: p getBuffer_New)
  from 1 2 3 show ?thesis by (intro conjI)
qed

text \<open>
  Claim C10. For a field of \<open>n\<close> bytes at \<open>i\<close> inside \<open>tmp\<close> and \<open>d\<close> not negative, \<open>nDigits\<close>
  leaves in the field the last \<open>min n k\<close> digits of \<open>d\<close> on the right, where \<open>k\<close> is the
  number of decimal digits of \<open>d\<close> and 0 has none, and \<open>pad\<close> in the places to their left;
  it changes nothing else. So in the header the pid 0 is seven spaces, and a pid of
  more than seven digits is cut down to its last seven.
\<close>

theorem nDigits_field:
  "(0 \<le> n \<and> 0 \<le> i \<and> i + n \<le> 64 \<and> 0 \<le> d \<longrightarrow>
      (\<exists>t. nDigits buf n i d pad = Some (Buffer (bytes buf) t (next_buffer buf))
         \<and> map t [nat i..<nat (i + n)] =
             replicate (nat n - min (nat n) (digit_count (nat d))) pad @
             drop (length (decimal (nat d)) - min (nat n) (digit_count (nat d))) (decimal (nat d))
         \<and> (\<forall>x. int x < i \<or> i + n \<le> int x \<longrightarrow> t x = tmp buf x)))
   \<and> (valid_time (timeNow e) \<and> 0 \<le> s \<and> line < 2 ^ 63 \<longrightarrow>
      (\<exists>t h. formatHeader l e s file line = Some (Buffer h t None, snd (getBuffer l))
         \<and> (pid e = 0 \<longrightarrow> take 7 (drop 22 h) = replicate 7 CHR '' '')
         \<and> (10 ^ 7 \<le> pid e \<longrightarrow>
              take 7 (drop 22 h) =
                drop (length (decimal (nat (pid e))) - 7) (decimal (nat (pid e))))))"
proof (intro conjI impI)
  assume a: "0 \<le> n \<and> 0 \<le> i \<and> i + n \<le> 64 \<and> 0 \<le> d"
  let ?t = "\<lambda>x. if i \<le> int x \<and> int x < i + n
            then field_char (nat d) pad (nat (i + n - 1 - int x))
            else tmp buf x"
  from a have "nDigits buf n i d pad = Some (Buffer (bytes buf) ?t (next_buffer buf))"
    by (intro nDigits_ok) simp_all
  moreover from a have "map ?t [nat i..<nat (i + n)] = digits_field (nat n) (nat d) pad"
    by (intro nDigits_tmp_field) simp_all
  moreover have "\<forall>x. int x < i \<or> i + n \<le> int x \<longrightarrow> ?t x = tmp buf x" by auto
  ultimately show "\<exists>t. nDigits buf n i d pad = Some (Buffer (bytes buf) t (next_buffer buf))
         \<and> map t [nat i..<nat (i + n)] =
             replicate (nat n - min (nat n) (digit_count (nat d))) pad @
             drop (length (decimal (nat d)) - min (nat n) (digit_count (nat d))) (decimal (nat d))
         \<and> (\<forall>x. int x < i \<or> i + n \<le> int x \<longrightarrow> t x = tmp buf x)"
    unfolding digits_field_eq by blast
next
  assume a: "valid_time (timeNow e) \<and> 0 \<le> s \<and> line < 2 ^ 63"
  let ?h = "render_header e (if s > fatalLog then infoLog else s) file (if line < 0 then 0 else line)"
  from a formatHeader_render [of e s line l "file"]
  obtain t where f: "formatHeader l e s file line = Some (Buffer ?h t None, snd (getBuffer l))"
    by blast
  have p: "take 7 (drop 22 ?h) = digits_field 7 (nat (pid e)) CHR '' ''"
    unfolding render_header_def by (rule take_drop_code_prefix)
  have z: "pid e = 0 \<longrightarrow> take 7 (drop 22 ?h) = replicate 7 CHR '' ''"
    unfolding p by (simp add: digits_field_eq digit_count_def)
  have b: "10 ^ 7 \<le> pid e \<longrightarrow>
      take 7 (drop 22 ?h) = drop (length (decimal (nat (pid e))) - 7) (decimal (nat (pid e)))"
  proof
    assume "10 ^ 7 \<le> pid e"
    then have "nat (10 ^ 7) \<le> nat (pid e)" by (rule nat_mono)
    then have "10 ^ 7 \<le> nat (pid e)" by simp
    then have "7 < digit_count (nat (pid e))" using digit_count_less [of 7 "nat (pid e)"] by blast
    then have "min 7 (digit_count (nat (pid e))) = 7" by simp
    then show "take 7 (drop 22 ?h) =
        drop (length (decimal (nat (pid e))) - 7) (decimal (nat (pid e)))"
      unfolding p digits_field_eq by simp
  qed
  from f z b show "\<exists>t h. formatHeader l e s file line = Some (Buffer h t None, snd (getBuffer l))
         \<and> (pid e = 0 \<longrightarrow> take 7 (drop 22 h) = replicate 7 CHR '' '')
         \<and> (10 ^ 7 \<le> pid e \<longrightarrow>
              take 7 (drop 22 h) =
                drop (length (decimal (nat (pid e))) - 7) (decimal (nat (pid e))))"
    by blast
qed


theorem nDigits_field_witness:
  "(\<exists>t. nDigits new_buffer 7 22 1234 CHR '' '' = Some (Buffer [] t None)
        \<and> map t [22..<29] = ''   1234'')
   \<and> (\<exists>t h. formatHeader New (example_env\<lparr>pid := 0\<rparr>) infoLog ''example.go'' 42 =
               Some (Buffer h t None, New)
        \<and> take 7 (drop 22 h) = ''       '')
   \<and> (\<exists>t h. formatHeader New (example_env\<lparr>pid := 12345678\<rparr>) infoLog ''example.go'' 42 =
               Some (Buffer h t None, New)
        \<and> take 7 (drop 22 h) = ''2345678'')"
proof (intro conjI)
  have a: "(0::int) \<le> 7 \<and> (0::int) \<le> 22 \<and> (22::int) + 7 \<le> 64 \<and> (0::int) \<le> 1234" by simp
  have d: "decimal 1234 = ''1234''" by (simp add: decimal_small decimal_rec digits_def)
  from nDigits_field [of 7 22 1234 new_buffer "CHR '' ''" example_env 0 0 New "[]"] a
  have "\<exists>t. nDigits new_buffer 7 22 1234 CHR '' '' =
          Some (Buffer (bytes new_buffer) t (next_buffer new_buffer))
        \<and> map t [nat 22..<nat (22 + 7)] =
             replicate (nat 7 - min (nat 7) (digit_count (nat 1234))) CHR '' '' @
             drop (length (decimal (nat 1234)) - min (nat 7) (digit_count (nat 1234)))
               (decimal (nat 1234))"
    by blast
  then show "\<exists>t. nDigits new_buffer 7 22 1234 CHR '' '' = Some (Buffer [] t None)
        \<and> map t [22..<29] = ''   1234''"
    by (simp add: new_buffer_def digit_count_def d replicate_numeral)
next
  let ?e = "example_env\<lparr>pid := 0\<rparr>"
  have a: "valid_time (timeNow ?e) \<and> (0::int) \<le> infoLog \<and> (42::int) < 2 ^ 63"
    by (simp add: example_env_def valid_example_time infoLog_def)
  have p: "pid ?e = 0" by simp
  from nDigits_field [of 0 0 0 new_buffer "CHR '' ''" ?e infoLog 42 New "''example.go''"] a p
  show "\<exists>t h. formatHeader New ?e infoLog ''example.go'' 42 = Some (Buffer h t None, New)
        \<and> take 7 (drop 22 h) = ''       ''"
    by (simp add: getBuffer_New replicate_numeral)
next
  let ?e = "example_env\<lparr>pid := 12345678\<rparr>"
  have a: "valid_time (timeNow ?e) \<and> (0::int) \<le> infoLog \<and> (42::int) < 2 ^ 63"
    by (simp add: example_env_def valid_example_time infoLog_def)
  have p: "10 ^ 7 \<le> pid ?e" by simp
  have d: "decimal 12345678 = ''12345678''" by (simp add: decimal_small decimal_rec digits_def)
  from nDigits_field [of 0 0 0 new_buffer "CHR '' ''" ?e infoLog 42 New "''example.go''"] a p
  have "\<exists>t h. formatHeader New ?e infoLog ''example.go'' 42 = Some (Buffer h t None, snd (getBuffer New))
        \<and> take 7 (drop 22 h) = drop (length (decimal (nat (pid ?e))) - 7) (decimal (nat (pid ?e)))"
    by blast
  then show "\<exists>t h. formatHeader New ?e infoLog ''example.go'' 42 = Some (Buffer h t None, New)
        \<and> take 7 (drop 22 h) = ''2345678''"
    by (simp add: getBuffer_New d)
qed

lemma getBuffer_fields [simp]:
  "calls (snd (getBuffer l)) = calls l"
  "includeDebug (snd (getBuffer l)) = includeDebug l"
  "depthDelta (snd (getBuffer l)) = depthDelta l"
  by (cases "freeList l"; simp add: getBuffer_def)+

lemma putBuffer_fields [simp]:
  "calls (putBuffer l b) = calls l"
  "includeDebug (putBuffer l b) = includeDebug l"
  "depthDelta (putBuffer l b) = depthDelta l"
  by (simp_all add: putBuffer_def)

lemma w_Write_fields [simp]:
  "calls (w_Write l p) = calls l @ [Write p]"
  "includeDebug (w_Write l p) = includeDebug l"
  "depthDelta (w_Write l p) = depthDelta l"
  "freeList (w_Write l p) = freeList l"
  by (simp_all add: w_Write_def)

lemma bufferCacheLen_w_Write [simp]: "bufferCacheLen (w_Write l p) = bufferCacheLen l"
  by (simp add: bufferCacheLen_def)

lemma emit_lines_step:
  "pline \<noteq> [] \<Longrightarrow>
   emit_lines l (pline # lines) hdr =
     emit_lines
       (putBuffer (w_Write (snd (getBuffer l)) (bytes hdr @ pline @ [nl]))
          (Buffer (bytes hdr @ pline @ [nl]) (tmp (fst (getBuffer l))) None))
       lines hdr"
  using getBuffer_fresh [of l]
  by (cases "getBuffer l") (simp add: buf_Write_def)

lemma emit_lines_skip: "emit_lines l ([] # lines) hdr = emit_lines l lines hdr"
  by simp

lemma emit_lines_fields:
  "calls (emit_lines l lines hdr) =
     calls l @ map (\<lambda>seg. Write (bytes hdr @ seg @ [nl])) (filter (\<lambda>seg. seg \<noteq> []) lines)
   \<and> includeDebug (emit_lines l lines hdr) = includeDebug l
   \<and> depthDelta (emit_lines l lines hdr) = depthDelta l"
proof (induction lines arbitrary: l)
  case Nil
  show ?case by simp
next
  case (Cons pline lines)
  show ?case
  proof (cases "pline = []")
    case True
    with Cons show ?thesis by (simp only: emit_lines_skip) simp
  next
    case False
    with Cons show ?thesis by (simp only: emit_lines_step [OF False]) simp
  qed
qed

lemma bufferCacheLen_emit_lines:
  "bufferCacheLen (emit_lines l lines hdr) =
     pool_after_lines (length (bytes hdr)) (bufferCacheLen l) lines"
proof (induction lines arbitrary: l)
  case Nil
  show ?case by simp
next
  case (Cons pline lines)
  show ?case
  proof (cases "pline = []")
    case True
    with Cons show ?thesis by (simp only: emit_lines_skip) simp
  next
    case False
    have "bufferCacheLen (putBuffer (w_Write (snd (getBuffer l)) (bytes hdr @ pline @ [nl]))
          (Buffer (bytes hdr @ pline @ [nl]) (tmp (fst (getBuffer l))) None)) =
        (if length (bytes hdr) + length pline + 1 < 256 then max 1 (bufferCacheLen l)
         else bufferCacheLen l - 1)"
      by (cases "bufferCacheLen l")
         (simp_all add: bufferCacheLen_putBuffer bufferCacheLen_getBuffer)
    with Cons False show ?thesis by (simp only: emit_lines_step [OF False]) simp
  qed
qed

lemma dropWhile_nl_Cons:
  "dropWhile (\<lambda>c. c \<noteq> nl) s = c # rest \<Longrightarrow> c = nl \<and> s = takeWhile (\<lambda>c. c \<noteq> nl) s @ nl # rest"
proof -
  assume a: "dropWhile (\<lambda>c. c \<noteq> nl) s = c # rest"
  then have "dropWhile (\<lambda>c. c \<noteq> nl) s \<noteq> []" by simp
  then have "\<not> (hd (dropWhile (\<lambda>c. c \<noteq> nl) s) \<noteq> nl)"
    by (rule hd_dropWhile)
  with a have c: "c = nl" by simp
  from a c have "takeWhile (\<lambda>c. c \<noteq> nl) s @ nl # rest =
      takeWhile (\<lambda>c. c \<noteq> nl) s @ dropWhile (\<lambda>c. c \<noteq> nl) s" by simp
  also have "\<dots> = s" by simp
  finally have "s = takeWhile (\<lambda>c. c \<noteq> nl) s @ nl # rest" by (rule sym)
  with c show ?thesis by (intro conjI)
qed

lemma bytes_Split_no_nl: "nl \<notin> set s \<Longrightarrow> bytes_Split s = [s]"
proof -
  assume "nl \<notin> set s"
  then have "dropWhile (\<lambda>c. c \<noteq> nl) s = []" by auto
  then show ?thesis by (subst bytes_Split.simps) (simp only: list.case)
qed

lemma bytes_Split_nl: "nl \<notin> set a \<Longrightarrow> bytes_Split (a @ nl # rest) = a # bytes_Split rest"
proof -
  assume a: "nl \<notin> set a"
  then have d: "dropWhile (\<lambda>c. c \<noteq> nl) (a @ nl # rest) = nl # rest"
    by (subst dropWhile_append2) auto
  from a have t: "takeWhile (\<lambda>c. c \<noteq> nl) (a @ nl # rest) = a"
    by (subst takeWhile_append2) auto
  show ?thesis by (subst bytes_Split.simps) (simp add: d t)
qed

lemma bytes_Split_cases:
  obtains "nl \<notin> set s" | a rest where "nl \<notin> set a" "s = a @ nl # rest"
proof (cases "dropWhile (\<lambda>c. c \<noteq> nl) s")
  case Nil
  then have "nl \<notin> set s" by auto
  then show ?thesis by (rule that(1))
next
  case (Cons c rest)
  then have "s = takeWhile (\<lambda>c. c \<noteq> nl) s @ nl # rest" by (rule dropWhile_nl_Cons [THEN conjunct2])
  moreover have "nl \<notin> set (takeWhile (\<lambda>c. c \<noteq> nl) s)"
    by (auto dest: set_takeWhileD)
  ultimately show ?thesis by (rule that(2) [rotated])
qed

lemma bytes_Split_not_Nil: "bytes_Split s \<noteq> []"
  by (cases s rule: bytes_Split_cases) (simp_all add: bytes_Split_no_nl bytes_Split_nl)

lemma bytes_Split_props:
  "join_nl (bytes_Split s) = s \<and> (\<forall>seg \<in> set (bytes_Split s). nl \<notin> set seg)
   \<and> bytes_Split (s @ [nl]) = bytes_Split s @ [[]]"
proof (induction s rule: length_induct)
  case (1 s)
  show ?case
  proof (cases s rule: bytes_Split_cases)
    case 1
    then have "bytes_Split (s @ [nl]) = [s, []]"
      using bytes_Split_nl [of s "[]"] by (simp add: bytes_Split_no_nl)
    with 1 show ?thesis by (simp add: bytes_Split_no_nl)
  next
    case (2 a rest)
    then have "length rest < length s" by simp
    with "1.IH" have ih: "join_nl (bytes_Split rest) = rest"
      "\<forall>seg \<in> set (bytes_Split rest). nl \<notin> set seg"
      "bytes_Split (rest @ [nl]) = bytes_Split rest @ [[]]" by blast+
    obtain x xs where r: "bytes_Split rest = x # xs"
      using bytes_Split_not_Nil [of rest] by (cases "bytes_Split rest") auto
    have s: "bytes_Split s = a # bytes_Split rest" using 2 by (simp add: bytes_Split_nl)
    have "bytes_Split (s @ [nl]) = a # bytes_Split (rest @ [nl])"
      using 2 bytes_Split_nl [of a "rest @ [nl]"] by simp
    with ih(3) s have 3: "bytes_Split (s @ [nl]) = bytes_Split s @ [[]]" by simp
    have "join_nl (a # x # xs) = a @ nl # join_nl (x # xs)" by simp
    with ih(1) r s 2(2) have 1: "join_nl (bytes_Split s) = s" by simp
    from ih(2) s 2(1) have 2: "\<forall>seg \<in> set (bytes_Split s). nl \<notin> set seg" by simp
    from 1 2 3 show ?thesis by (intro conjI)
  qed
qed

lemma emitImpl_calls:
  "calls (emitAsOneOrMoreLogLinesImpl l buf hdr) = calls l @ log_lines (bytes hdr) (bytes buf)"
  by (simp add: emitAsOneOrMoreLogLinesImpl_def log_lines_def emit_lines_fields)

lemma emitImpl_fields [simp]:
  "includeDebug (emitAsOneOrMoreLogLinesImpl l buf hdr) = includeDebug l"
  "depthDelta (emitAsOneOrMoreLogLinesImpl l buf hdr) = depthDelta l"
  by (simp_all add: emitAsOneOrMoreLogLinesImpl_def emit_lines_fields)

lemma split_foo_bar: "bytes_Split (''foo'' @ [nl] @ ''bar'') = [''foo'', ''bar'']"
proof -
  have "nl \<notin> set ''foo''" "nl \<notin> set ''bar''" by (simp_all add: nl_def)
  then show ?thesis using bytes_Split_nl [of "''foo''" "''bar''"] by (simp add: bytes_Split_no_nl)
qed

text \<open>
  Claim C2. For every header buffer \<open>h\<close> and message buffer \<open>m\<close>, the calls that
  \<open>emitAsOneOrMoreLogLinesImpl\<close> adds are, in order, one \<open>Write\<close> for each segment of
  non-zero length that splitting the message at the line breaks gives, and the bytes of
  that write are the header, the segment and one line break. The segments contain no
  line break and joined by line breaks they are the message. The message \<open>foo\nbar\<close>
  gives two writes under the same header, and a line break at the end of a message adds
  no write.
\<close>

theorem emitAsOneOrMoreLogLinesImpl_writes:
  "calls (emitAsOneOrMoreLogLinesImpl l m h) =
     calls l @ map (\<lambda>seg. Write (bytes h @ seg @ [nl]))
                 (filter (\<lambda>seg. length seg \<noteq> 0) (bytes_Split (bytes m)))
   \<and> join_nl (bytes_Split (bytes m)) = bytes m
   \<and> (\<forall>seg \<in> set (bytes_Split (bytes m)). nl \<notin> set seg)
   \<and> calls (emitAsOneOrMoreLogLinesImpl l (Buffer (''foo'' @ [nl] @ ''bar'') t n) h) =
       calls l @ [Write (bytes h @ ''foo'' @ [nl]), Write (bytes h @ ''bar'' @ [nl])]
   \<and> calls (emitAsOneOrMoreLogLinesImpl l (Buffer (bytes m @ [nl]) t n) h) =
       calls (emitAsOneOrMoreLogLinesImpl l m h)"
proof (intro conjI)
  show "calls (emitAsOneOrMoreLogLinesImpl l m h) =
     calls l @ map (\<lambda>seg. Write (bytes h @ seg @ [nl]))
                 (filter (\<lambda>seg. length seg \<noteq> 0) (bytes_Split (bytes m)))"
    by (simp add: emitImpl_calls log_lines_def)
  show "join_nl (bytes_Split (bytes m)) = bytes m"
    using bytes_Split_props [of "bytes m"] by blast
  show "\<forall>seg \<in> set (bytes_Split (bytes m)). nl \<notin> set seg"
    using bytes_Split_props [of "bytes m"] by blast
  show "calls (emitAsOneOrMoreLogLinesImpl l (Buffer (''foo'' @ [nl] @ ''bar'') t n) h) =
       calls l @ [Write (bytes h @ ''foo'' @ [nl]), Write (bytes h @ ''bar'' @ [nl])]"
    by (simp only: emitImpl_calls log_lines_def buffer.sel split_foo_bar) simp
  have "bytes_Split (bytes m @ [nl]) = bytes_Split (bytes m) @ [[]]"
    using bytes_Split_props [of "bytes m"] by blast
  then show "calls (emitAsOneOrMoreLogLinesImpl l (Buffer (bytes m @ [nl]) t n) h) =
       calls (emitAsOneOrMoreLogLinesImpl l m h)"
    by (simp add: emitImpl_calls log_lines_def)
qed

text \<open>
  The theorem at the message \<open>foo\nbar\n\<close> under the header \<open>H] \<close>.
\<close>

theorem emitAsOneOrMoreLogLinesImpl_writes_witness:
  "calls (emitAsOneOrMoreLogLinesImpl New (Buffer (''foo'' @ [nl] @ ''bar'' @ [nl]) (\<lambda>_. CHR ''x'') None)
            (Buffer ''H] '' (\<lambda>_. CHR ''x'') None)) =
     [Write (''H] foo'' @ [nl]), Write (''H] bar'' @ [nl])]
   \<and> nl \<notin> set ''foo''"
proof -
  let ?m = "Buffer (''foo'' @ [nl] @ ''bar'') (\<lambda>_. CHR ''x'') None"
  let ?h = "Buffer ''H] '' (\<lambda>_. CHR ''x'') None"
  note th = emitAsOneOrMoreLogLinesImpl_writes [of New ?m ?h "\<lambda>_. CHR ''x''" None]
  from th have 1: "calls (emitAsOneOrMoreLogLinesImpl New (Buffer (bytes ?m @ [nl]) (\<lambda>_. CHR ''x'') None) ?h) =
       calls (emitAsOneOrMoreLogLinesImpl New ?m ?h)" by blast
  from th have 2: "calls (emitAsOneOrMoreLogLinesImpl New ?m ?h) =
       calls New @ [Write (bytes ?h @ ''foo'' @ [nl]), Write (bytes ?h @ ''bar'' @ [nl])]"
    by blast
  from th have 3: "\<forall>seg \<in> set (bytes_Split (bytes ?m)). nl \<notin> set seg" by blast
  have "''foo'' \<in> set (bytes_Split (bytes ?m))"
    by (simp only: buffer.sel split_foo_bar) simp
  with 3 have "nl \<notin> set ''foo''" by blast
  with 1 2 show ?thesis by (simp add: New_def)
qed

end
